theory Spec2Isabelle
  imports Complex_Main "HOL-Library.Sublist"
begin

section \<open>JavaScript values\<close>

text \<open>
  TypeScript types are erased when the program runs, and \<^verbatim>\<open>JSON.parse\<close> returns a value
  of any shape.  A value is therefore modelled as the program meets it.  A string is a list
  of characters, one per code unit, so that \<open>length\<close> is the \<^verbatim>\<open>.length\<close> of the
  source.  A number that comes out of a JSON text is carried as the text that
  \<^verbatim>\<open>String(n)\<close> gives for it: the code below only ever asks a parsed number whether it is
  truthy and how it prints, and a number is falsy exactly when it prints as \<^verbatim>\<open>0\<close>
  (\<^verbatim>\<open>JSON.parse\<close> never yields \<^verbatim>\<open>NaN\<close>).  An object is the list of its own
  properties, one pair per key.
\<close>

datatype jsval =
    JUndefined
  | JNull
  | JBool bool
  | JNum string
  | JStr string
  | JArr "jsval list"
  | JObj "(string \<times> jsval) list"

text \<open>
  The numbers the program computes itself (token counts) are integers, \<^verbatim>\<open>NaN\<close> or an
  infinity: they all come out of \<^verbatim>\<open>Math.round\<close> or are the literal \<^verbatim>\<open>0\<close>.
\<close>

datatype jsnumber = Fin int | NaN | PosInf | NegInf

datatype js_error = TypeError | SyntaxError

text \<open>Truthiness, as \<^verbatim>\<open>if (v)\<close> and \<^verbatim>\<open>!v\<close> test it.\<close>

fun truthy :: "jsval \<Rightarrow> bool" where
  "truthy JUndefined = False"
| "truthy JNull = False"
| "truthy (JBool b) = b"
| "truthy (JNum s) = (s \<noteq> ''0'')"
| "truthy (JStr s) = (s \<noteq> [])"
| "truthy (JArr xs) = True"
| "truthy (JObj kvs) = True"

text \<open>
  \<^verbatim>\<open>v.name\<close> for a property name that no prototype defines (\<^verbatim>\<open>message\<close>,
  \<^verbatim>\<open>content\<close>, \<^verbatim>\<open>result\<close>, \<^verbatim>\<open>text\<close>, \<^verbatim>\<open>session_id\<close>, \<^verbatim>\<open>category\<close>,
  \<^verbatim>\<open>reason\<close>): reading it from \<^verbatim>\<open>null\<close> or \<^verbatim>\<open>undefined\<close> throws, an object
  gives its own property, everything else gives \<^verbatim>\<open>undefined\<close>.
\<close>

fun get_prop :: "jsval \<Rightarrow> string \<Rightarrow> js_error + jsval" where
  "get_prop JUndefined name = Inl TypeError"
| "get_prop JNull name = Inl TypeError"
| "get_prop (JObj kvs) name = (case map_of kvs name of None \<Rightarrow> Inr JUndefined | Some v \<Rightarrow> Inr v)"
| "get_prop v name = Inr JUndefined"

text \<open>\<^verbatim>\<open>v?.name\<close>: \<^verbatim>\<open>undefined\<close> when \<open>v\<close> is \<^verbatim>\<open>null\<close> or \<^verbatim>\<open>undefined\<close>.\<close>

fun get_prop_opt :: "jsval \<Rightarrow> string \<Rightarrow> jsval" where
  "get_prop_opt (JObj kvs) name = (case map_of kvs name of None \<Rightarrow> JUndefined | Some v \<Rightarrow> v)"
| "get_prop_opt v name = JUndefined"

text \<open>\<^verbatim>\<open>a ?? b\<close>.\<close>

fun nullish :: "jsval \<Rightarrow> jsval \<Rightarrow> jsval" where
  "nullish JUndefined d = d"
| "nullish JNull d = d"
| "nullish v d = v"

text \<open>\<^verbatim>\<open>xs.join(sep)\<close> on strings.\<close>

fun join :: "string \<Rightarrow> string list \<Rightarrow> string" where
  "join sep [] = []"
| "join sep [x] = x"
| "join sep (x # y # ys) = x @ sep @ join sep (y # ys)"

text \<open>
  \<^verbatim>\<open>String(v)\<close>, which is also what a template literal does to \<open>v\<close>.  An array prints
  its elements separated by commas, with \<^verbatim>\<open>null\<close> and \<^verbatim>\<open>undefined\<close> elements
  printed as nothing.  An object prints as \<^verbatim>\<open>[object Object]\<close>, unless it has a property
  of its own called \<^verbatim>\<open>toString\<close>: a parsed value is never a function, so the conversion
  finds nothing to call and throws.  \<open>collect\<close> gathers the elements' texts from left to
  right and stops at the first that throws.
\<close>

fun collect :: "(js_error + 'a) list \<Rightarrow> js_error + 'a list" where
  "collect [] = Inr []"
| "collect (Inl e # rs) = Inl e"
| "collect (Inr x # rs) = (case collect rs of Inl e \<Rightarrow> Inl e | Inr xs \<Rightarrow> Inr (x # xs))"

fun js_String :: "jsval \<Rightarrow> js_error + string" where
  "js_String JUndefined = Inr ''undefined''"
| "js_String JNull = Inr ''null''"
| "js_String (JBool b) = Inr (if b then ''true'' else ''false'')"
| "js_String (JNum s) = Inr s"
| "js_String (JStr s) = Inr s"
| "js_String (JArr xs) =
     (case collect (map (\<lambda>x. if x = JUndefined \<or> x = JNull then Inr [] else js_String x) xs) of
        Inl e \<Rightarrow> Inl e
      | Inr strs \<Rightarrow> Inr (join '','' strs))"
| "js_String (JObj kvs) =
     (if map_of kvs ''toString'' \<noteq> None then Inl TypeError else Inr ''[object Object]'')"

text \<open>\<^verbatim>\<open>s.includes(sub)\<close>: \<open>sub\<close> occurs in \<open>s\<close> as a contiguous run.\<close>

definition str_includes :: "string \<Rightarrow> string \<Rightarrow> bool" where
  "str_includes s sub = sublist sub s"

text \<open>The decimal digits of a natural number, as a template literal prints it.\<close>

definition digit :: "nat \<Rightarrow> char" where
  "digit d = char_of (48 + d)"

fun show_nat :: "nat \<Rightarrow> string" where
  "show_nat n = (if n < 10 then [digit n] else show_nat (n div 10) @ [digit (n mod 10)])"

declare show_nat.simps [simp del]

text \<open>\<^verbatim>\<open>xs.findIndex(p)\<close>, with \<open>None\<close> for the source's \<open>-1\<close>.\<close>

fun findIndex :: "('a \<Rightarrow> bool) \<Rightarrow> 'a list \<Rightarrow> nat option" where
  "findIndex p [] = None"
| "findIndex p (x # xs) =
     (if p x then Some 0 else map_option Suc (findIndex p xs))"

section \<open>Session registry (session-registry.ts)\<close>

record SessionEntry =
  sessionId :: jsval
  group :: string
  createdAt :: string
  lastUsedAt :: string
  contentTokens :: jsnumber
  summary :: "string option"

record Registry =
  sessions :: "SessionEntry list"

text \<open>
  The module keeps the registry in \<open>cached\<close> and on disk in \<^verbatim>\<open>registry.json\<close>.  The
  file is \<open>None\<close> when it is missing or does not parse, and holds a registry otherwise.
  Reads and writes of the file themselves are taken to succeed.
\<close>

record Store =
  cached :: "Registry option"
  disk :: "Registry option"

definition load :: "Store \<Rightarrow> Registry \<times> Store" where
  "load st =
     (case cached st of
        Some reg \<Rightarrow> (reg, st)
      | None \<Rightarrow>
          (case disk st of
             Some reg \<Rightarrow> (reg, st\<lparr>cached := Some reg\<rparr>)
           | None \<Rightarrow> (\<lparr>sessions = []\<rparr>, st\<lparr>cached := Some \<lparr>sessions = []\<rparr>\<rparr>)))"

definition save :: "Registry \<Rightarrow> Store \<Rightarrow> Store" where
  "save registry st = st\<lparr>cached := Some registry, disk := Some registry\<rparr>"

text \<open>
  The clock is an input: \<open>now\<close> is what \<^verbatim>\<open>new Date().toISOString()\<close> returns at the
  call, \<open>now_ms\<close> what \<^verbatim>\<open>Date.now()\<close> returns.
\<close>

definition getSessionForGroup :: "string \<Rightarrow> string \<Rightarrow> Store \<Rightarrow> SessionEntry option \<times> Store" where
  "getSessionForGroup now grp st =
     (let (reg, st1) = load st in
      case findIndex (\<lambda>s. group s = grp) (sessions reg) of
        None \<Rightarrow> (None, st1)
      | Some i \<Rightarrow>
          (let entry = (sessions reg ! i)\<lparr>lastUsedAt := now\<rparr>;
               reg' = reg\<lparr>sessions := (sessions reg)[i := entry]\<rparr>
           in (Some entry, save reg' st1)))"

definition createSessionForGroup ::
  "string \<Rightarrow> string \<Rightarrow> string \<Rightarrow> jsval \<Rightarrow> Store \<Rightarrow> SessionEntry \<times> Store" where
  "createSessionForGroup now1 now2 grp sid st =
     (let (reg, st1) = load st;
          existing = findIndex (\<lambda>s. group s = grp) (sessions reg);
          entry = \<lparr>sessionId = sid, group = grp, createdAt = now1, lastUsedAt = now2,
                   contentTokens = Fin 0, summary = None\<rparr>;
          reg' = (case existing of
                    Some i \<Rightarrow> reg\<lparr>sessions := (sessions reg)[i := entry]\<rparr>
                  | None \<Rightarrow> reg\<lparr>sessions := sessions reg @ [entry]\<rparr>)
      in (entry, save reg' st1))"

definition updateTokenCount :: "string \<Rightarrow> jsnumber \<Rightarrow> Store \<Rightarrow> Store" where
  "updateTokenCount grp tokens st =
     (let (reg, st1) = load st in
      case findIndex (\<lambda>s. group s = grp) (sessions reg) of
        None \<Rightarrow> st1
      | Some i \<Rightarrow>
          save (reg\<lparr>sessions := (sessions reg)[i := (sessions reg ! i)\<lparr>contentTokens := tokens\<rparr>]\<rparr>) st1)"

definition archiveGroup :: "string \<Rightarrow> nat \<Rightarrow> string" where
  "archiveGroup grp now_ms = grp @ ''__archived_'' @ show_nat now_ms"

definition rotateSession ::
  "nat \<Rightarrow> string \<Rightarrow> string option \<Rightarrow> Store \<Rightarrow> jsval option \<times> Store" where
  "rotateSession now_ms grp summ st =
     (let (reg, st1) = load st in
      case findIndex (\<lambda>s. group s = grp) (sessions reg) of
        None \<Rightarrow> (None, st1)
      | Some idx \<Rightarrow>
          (let old = sessions reg ! idx;
               old1 = (case summ of
                         Some s \<Rightarrow> if s \<noteq> [] then old\<lparr>summary := Some s\<rparr> else old
                       | None \<Rightarrow> old);
               old2 = old1\<lparr>group := archiveGroup grp now_ms\<rparr>
           in (Some (sessionId old2), save (reg\<lparr>sessions := (sessions reg)[idx := old2]\<rparr>) st1)))"

definition listSessions :: "Store \<Rightarrow> SessionEntry list \<times> Store" where
  "listSessions st =
     (let (reg, st1) = load st in
      (filter (\<lambda>s. \<not> str_includes (group s) ''__archived_'') (sessions reg), st1))"

definition listAllSessions :: "Store \<Rightarrow> SessionEntry list \<times> Store" where
  "listAllSessions st = (let (reg, st1) = load st in (sessions reg, st1))"

definition invalidateCache :: "Store \<Rightarrow> Store" where
  "invalidateCache st = st\<lparr>cached := None\<rparr>"

text \<open>
  A sequence of registry operations.  Each operation carries its arguments and the clock
  readings it makes; \<open>run_ops\<close> applies them in order and drops the returned values.
\<close>

datatype reg_op =
    Get string string
  | Create string string string jsval
  | UpdateTokenCount string jsnumber
  | Archive nat string "string option"
  | ListLive
  | ListAll

fun apply_op :: "reg_op \<Rightarrow> Store \<Rightarrow> Store" where
  "apply_op (Get now grp) st = snd (getSessionForGroup now grp st)"
| "apply_op (Create now1 now2 grp sid) st = snd (createSessionForGroup now1 now2 grp sid st)"
| "apply_op (UpdateTokenCount grp tokens) st = updateTokenCount grp tokens st"
| "apply_op (Archive now_ms grp summ) st = snd (rotateSession now_ms grp summ st)"
| "apply_op ListLive st = snd (listSessions st)"
| "apply_op ListAll st = snd (listAllSessions st)"

fun run_ops :: "reg_op list \<Rightarrow> Store \<Rightarrow> Store" where
  "run_ops [] st = st"
| "run_ops (op # ops) st = run_ops ops (apply_op op st)"

text \<open>The registry a call sees: what \<open>load\<close> returns.\<close>

definition current :: "Store \<Rightarrow> SessionEntry list" where
  "current st = sessions (fst (load st))"

text \<open>
  An entry is live when its group is not an archival name, the test \<open>listSessions\<close>
  makes; the live entries of a group \<open>G\<close> are the live entries filed under \<open>G\<close>.
\<close>

definition is_live :: "SessionEntry \<Rightarrow> bool" where
  "is_live s = (\<not> str_includes (group s) ''__archived_'')"

definition live_entries :: "string \<Rightarrow> Store \<Rightarrow> SessionEntry list" where
  "live_entries G st = filter (\<lambda>s. group s = G \<and> is_live s) (current st)"


text \<open>The entry \<open>rotateSession\<close> leaves in place of the one it archives.\<close>

definition archived_entry :: "nat \<Rightarrow> string \<Rightarrow> string option \<Rightarrow> SessionEntry \<Rightarrow> SessionEntry" where
  "archived_entry now_ms grp summ old =
     (case summ of
        Some s \<Rightarrow> if s \<noteq> [] then old\<lparr>summary := Some s\<rparr> else old
      | None \<Rightarrow> old)\<lparr>group := archiveGroup grp now_ms\<rparr>"

text \<open>A store for the examples: nothing cached, one live and one archived entry on disk.\<close>

definition example_store :: Store where
  "example_store = \<lparr>cached = None,
     disk = Some \<lparr>sessions =
       [\<lparr>sessionId = JStr ''s1'', group = ''ops'', createdAt = ''t0'', lastUsedAt = ''t0'',
         contentTokens = Fin 5, summary = None\<rparr>,
        \<lparr>sessionId = JStr ''s0'', group = ''ops__archived_17'', createdAt = ''t0'', lastUsedAt = ''t0'',
         contentTokens = Fin 9, summary = Some ''old''\<rparr>]\<rparr>\<rparr>"

section \<open>Reply routes (router.ts)\<close>

definition MAX_ENTRIES :: nat where
  "MAX_ENTRIES = 500"

text \<open>
  A JavaScript \<^verbatim>\<open>Map\<close> keeps its entries in insertion order, one per key: \<^verbatim>\<open>set\<close> on a
  key that is present changes the value where the entry stands, on a new key it appends.
\<close>

fun map_set :: "'k \<Rightarrow> 'v \<Rightarrow> ('k \<times> 'v) list \<Rightarrow> ('k \<times> 'v) list" where
  "map_set k v [] = [(k, v)]"
| "map_set k v ((k', v') # m) = (if k' = k then (k, v) # m else (k', v') # map_set k v m)"

definition new_Map :: "('k \<times> 'v) list \<Rightarrow> ('k \<times> 'v) list" where
  "new_Map data = foldl (\<lambda>m (k, v). map_set k v m) [] data"

definition map_get :: "('k \<times> 'v) list \<Rightarrow> 'k \<Rightarrow> 'v option" where
  "map_get m k = map_of m k"

text \<open>\<^verbatim>\<open>xs.slice(-n)\<close> for a positive \<open>n\<close>: the last \<open>n\<close> elements, all of them when there are fewer.\<close>

definition slice_last :: "nat \<Rightarrow> 'a list \<Rightarrow> 'a list" where
  "slice_last n xs = drop (length xs - n) xs"

datatype map_file = NoFile | BadFile | Entries "(int \<times> string) list"

record RouteState =
  messageSessionMap :: "(int \<times> string) list"
  mapLoaded :: bool
  map_file :: map_file

definition loadMap :: "RouteState \<Rightarrow> RouteState" where
  "loadMap st =
     (if mapLoaded st then st
      else
        (let st1 = st\<lparr>mapLoaded := True\<rparr> in
         case map_file st1 of
           NoFile \<Rightarrow> st1
         | Entries data \<Rightarrow> st1\<lparr>messageSessionMap := new_Map data\<rparr>
         | BadFile \<Rightarrow> st1\<lparr>messageSessionMap := []\<rparr>))"

definition saveMap :: "RouteState \<Rightarrow> RouteState" where
  "saveMap st =
     (let entries = messageSessionMap st;
          pruned = slice_last MAX_ENTRIES entries
      in st\<lparr>messageSessionMap := new_Map pruned, map_file := Entries pruned\<rparr>)"

definition recordMessageSession :: "int \<Rightarrow> string \<Rightarrow> RouteState \<Rightarrow> RouteState" where
  "recordMessageSession botMessageId grp st =
     (let st1 = loadMap st;
          st2 = st1\<lparr>messageSessionMap := map_set botMessageId grp (messageSessionMap st1)\<rparr>
      in saveMap st2)"

definition routeByReplyTo :: "int \<Rightarrow> RouteState \<Rightarrow> string option \<times> RouteState" where
  "routeByReplyTo replyToMessageId st =
     (let st1 = loadMap st in (map_get (messageSessionMap st1) replyToMessageId, st1))"

text \<open>A loaded map that is full: 500 entries, keys 0 to 499.\<close>

definition full_routes :: RouteState where
  "full_routes = \<lparr>messageSessionMap = map (\<lambda>i. (int i, ''general'')) [0..<500],
                   mapLoaded = True, map_file = NoFile\<rparr>"

section \<open>Message classifier (router.ts)\<close>

text \<open>
  What \<^verbatim>\<open>Bun.spawn\<close> and reading the child's output come to: the call throws, or the
  child ends with its standard output and an exit code (\<open>None\<close> for the \<^verbatim>\<open>null\<close> of a
  child that a signal ended).
\<close>

datatype spawn_result = SpawnThrows | Exited string "int option"

record ClassifyResult =
  category :: string
  reason :: jsval

text \<open>\<^verbatim>\<open>text.replace(/"/g, '\\"')\<close>: a backslash in front of every double quote.\<close>

definition escape_quotes :: "string \<Rightarrow> string" where
  "escape_quotes s = concat (map (\<lambda>c. if c = CHR 0x22 then [CHR 0x5C, CHR 0x22] else [c]) s)"

text \<open>
  The prompt is fixed text around the escaped message cut to 500 characters; the fixed
  text before and after the message is \<open>head\<close> and \<open>tail\<close>.
\<close>

definition buildClassifierPrompt :: "string \<Rightarrow> string \<Rightarrow> string \<Rightarrow> string" where
  "buildClassifierPrompt head tail text = head @ take 500 (escape_quotes text) @ tail"

text \<open>
  \<^verbatim>\<open>s.match(/\{[\s\S]*"category"[\s\S]*\}/)\<close>.  A match starts at an opening brace, ends
  at a closing brace and has \<^verbatim>\<open>"category"\<close> in between.  The leftmost match starts at the
  first opening brace of \<open>s\<close>, and both stars being greedy it runs to the last closing
  brace of \<open>s\<close>; there is one exactly when \<^verbatim>\<open>"category"\<close> occurs between these two.
\<close>

definition match_category :: "string \<Rightarrow> string option" where
  "match_category s =
     (let r = dropWhile (\<lambda>c. c \<noteq> CHR ''{'') s in
      if r = [] then None
      else
        (let upto = rev (dropWhile (\<lambda>c. c \<noteq> CHR ''}'') (rev (tl r))) in
         if upto = [] then None
         else if str_includes (butlast upto) ([CHR 0x22] @ ''category'' @ [CHR 0x22])
              then Some (CHR ''{'' # upto)
              else None))"

definition classifier_args :: "string \<Rightarrow> string list" where
  "classifier_args prompt =
     [''claude'', ''-p'', prompt, ''--model'', ''haiku'', ''--output-format'', ''json'',
      ''--no-input'', ''--max-turns'', ''1'', ''--dangerously-skip-permissions'']"

text \<open>
  \<open>parse\<close> is \<^verbatim>\<open>JSON.parse\<close> (\<open>None\<close> when it throws), \<open>spawn\<close> the child process; every
  exception inside the \<^verbatim>\<open>try\<close> block ends in the \<^verbatim>\<open>catch\<close> branch.
\<close>

definition classifyMessage ::
  "(string \<Rightarrow> jsval option) \<Rightarrow> (string list \<Rightarrow> spawn_result) \<Rightarrow> string \<Rightarrow> string \<Rightarrow> string
     \<Rightarrow> ClassifyResult" where
  "classifyMessage parse spawn head tail text =
     (let prompt = buildClassifierPrompt head tail text;
          caught = \<lparr>category = ''general'', reason = JStr ''classifier_fallback''\<rparr>;
          dflt = \<lparr>category = ''general'', reason = JStr ''default''\<rparr>
      in
      case spawn (classifier_args prompt) of
        SpawnThrows \<Rightarrow> caught
      | Exited stdout exitCode \<Rightarrow>
          if exitCode \<noteq> Some 0 then \<lparr>category = ''general'', reason = JStr ''classifier_error''\<rparr>
          else
            (case parse stdout of
               None \<Rightarrow> caught
             | Some parsed \<Rightarrow>
                 (case get_prop parsed ''result'' of
                    Inl e \<Rightarrow> caught
                  | Inr r \<Rightarrow>
                      (let result = nullish r (JStr stdout) in
                       case js_String result of
                         Inl e \<Rightarrow> caught
                       | Inr shown \<Rightarrow>
                           (case match_category shown of
                              None \<Rightarrow> dflt
                            | Some jsonMatch \<Rightarrow>
                                (case parse jsonMatch of
                                   None \<Rightarrow> caught
                                 | Some classification \<Rightarrow>
                                     (case get_prop classification ''category'' of
                                        Inl e \<Rightarrow> caught
                                      | Inr c \<Rightarrow>
                                          if c = JStr ''secretary''
                                          then \<lparr>category = ''secretary'',
                                                reason = nullish (get_prop_opt classification ''reason'')
                                                           (JStr ''classified'')\<rparr>
                                          else dflt)))))))"

text \<open>
  An example of a classifier run: the child prints an envelope whose \<^verbatim>\<open>result\<close> is the text
  \<^verbatim>\<open>{"category":"secretary"}\<close> after a few words, and the stand-in for \<^verbatim>\<open>JSON.parse\<close>
  parses the two texts involved.
\<close>

definition example_answer :: string where
  "example_answer = ''{'' @ [CHR 0x22] @ ''category'' @ [CHR 0x22] @ '':'' @
                    [CHR 0x22] @ ''secretary'' @ [CHR 0x22] @ ''}''"

definition example_parse :: "string \<Rightarrow> jsval option" where
  "example_parse s =
     (if s = ''envelope'' then Some (JObj [(''result'', JStr (''Sure: '' @ example_answer))])
      else if s = example_answer then Some (JObj [(''category'', JStr ''secretary'')])
      else None)"

section \<open>Token estimator (token-estimator.ts)\<close>

text \<open>
  The projects directory as the estimator sees it.  \<open>readdir\<close> is the listing of the
  projects root, \<open>None\<close> when reading it throws.  \<open>stat_ok dir name\<close> says whether
  \<^verbatim>\<open>stat\<close> succeeds on the path \<^verbatim>\<open>join(PROJECTS_DIR, dir, name)\<close>, and \<open>text_at dir name\<close>
  is the text read from that path; reading a path that \<^verbatim>\<open>stat\<close> found is taken to
  succeed.
\<close>

record Projects =
  readdir :: "string list option"
  stat_ok :: "string \<Rightarrow> string \<Rightarrow> bool"
  text_at :: "string \<Rightarrow> string \<Rightarrow> string"

text \<open>The path found is kept as the pair of the directory and the file name.\<close>

fun first_candidate :: "Projects \<Rightarrow> string \<Rightarrow> string list \<Rightarrow> (string \<times> string) option" where
  "first_candidate fs filename [] = None"
| "first_candidate fs filename (dir # dirs) =
     (if stat_ok fs dir filename then Some (dir, filename)
      else first_candidate fs filename dirs)"

definition findTranscriptPath :: "Projects \<Rightarrow> string \<Rightarrow> (string \<times> string) option" where
  "findTranscriptPath fs sid =
     (let filename = sid @ ''.jsonl'' in
      case readdir fs of
        None \<Rightarrow> None
      | Some dirs \<Rightarrow> first_candidate fs filename dirs)"

text \<open>\<^verbatim>\<open>text.split("\n")\<close>: the pieces between line feeds, one more than there are line feeds.\<close>

function split_lines :: "string \<Rightarrow> string list" where
  "split_lines s =
     (case dropWhile (\<lambda>c. c \<noteq> CHR 0x0A) s of
        [] \<Rightarrow> [s]
      | c # rest \<Rightarrow> takeWhile (\<lambda>c. c \<noteq> CHR 0x0A) s # split_lines rest)"
  by pat_completeness auto
termination
proof (relation "measure length")
  show "wf (measure length)" by simp
next
  fix s :: string and c rest
  assume "dropWhile (\<lambda>c. c \<noteq> CHR 0x0A) s = c # rest"
  then have "length (c # rest) \<le> length s"
    using length_dropWhile_le [of "\<lambda>c. c \<noteq> CHR 0x0A" s] by simp
  then show "(rest, s) \<in> measure length" by simp
qed

declare split_lines.simps [simp del]

text \<open>\<^verbatim>\<open>s.trim()\<close>: white space and line ends taken off both ends.\<close>

definition is_space :: "char \<Rightarrow> bool" where
  "is_space c = (c \<in> {CHR 0x09, CHR 0x0A, CHR 0x0B, CHR 0x0C, CHR 0x0D, CHR 0x20, CHR 0xA0})"

definition trim :: "string \<Rightarrow> string" where
  "trim s = rev (dropWhile is_space (rev (dropWhile is_space s)))"

text \<open>
  The running sum \<open>totalChars\<close>.  It starts as the number 0 and stays a natural number
  as long as lengths of strings and arrays are added.  \<^verbatim>\<open>v.length\<close> of a number, of
  \<^verbatim>\<open>true\<close> or of an object without a \<^verbatim>\<open>length\<close> of its own is \<^verbatim>\<open>undefined\<close>, and
  adding it leaves \<^verbatim>\<open>NaN\<close>, which no later number changes.  An object with a \<^verbatim>\<open>length\<close>
  of its own would add whatever value it carries there: that sum is not followed, and
  \<open>Beyond\<close> marks it.
\<close>

datatype total = Count nat | NotANumber | Beyond

fun plus_length :: "total \<Rightarrow> nat \<Rightarrow> total" where
  "plus_length (Count n) k = Count (n + k)"
| "plus_length NotANumber k = NotANumber"
| "plus_length Beyond k = Beyond"

fun plus_undefined :: "total \<Rightarrow> total" where
  "plus_undefined (Count n) = NotANumber"
| "plus_undefined NotANumber = NotANumber"
| "plus_undefined Beyond = Beyond"

text \<open>\<^verbatim>\<open>totalChars += v.length\<close> for a truthy \<open>v\<close>.\<close>

fun add_length_of :: "total \<Rightarrow> jsval \<Rightarrow> total" where
  "add_length_of t (JStr s) = plus_length t (length s)"
| "add_length_of t (JArr xs) = plus_length t (length xs)"
| "add_length_of t (JObj kvs) =
     (if map_of kvs ''length'' \<noteq> None then Beyond else plus_undefined t)"
| "add_length_of t v = plus_undefined t"

text \<open>
  The two loops over content blocks.  Each returns the sum so far and whether the loop
  threw; what was added before the exception stays added.  The loop over a message's
  blocks counts \<^verbatim>\<open>block.text\<close> and \<^verbatim>\<open>block.content\<close>, the loop over a result's blocks
  counts \<^verbatim>\<open>block.text\<close>.
\<close>

fun message_blocks :: "jsval list \<Rightarrow> total \<Rightarrow> total \<times> bool" where
  "message_blocks [] t = (t, False)"
| "message_blocks (block # blocks) t =
     (case get_prop block ''text'' of
        Inl e \<Rightarrow> (t, True)
      | Inr tx \<Rightarrow>
          (let t1 = (if truthy tx then add_length_of t tx else t);
               c = get_prop_opt block ''content''
           in if truthy c
              then (case js_String c of
                      Inl e \<Rightarrow> (t1, True)
                    | Inr shown \<Rightarrow> message_blocks blocks (plus_length t1 (length shown)))
              else message_blocks blocks t1))"

fun result_blocks :: "jsval list \<Rightarrow> total \<Rightarrow> total \<times> bool" where
  "result_blocks [] t = (t, False)"
| "result_blocks (block # blocks) t =
     (case get_prop block ''text'' of
        Inl e \<Rightarrow> (t, True)
      | Inr tx \<Rightarrow> result_blocks blocks (if truthy tx then add_length_of t tx else t))"

text \<open>The part of the loop body about \<^verbatim>\<open>obj.message\<close>, then the part about \<^verbatim>\<open>obj.result\<close>.\<close>

definition count_message :: "jsval \<Rightarrow> total \<Rightarrow> total \<times> bool" where
  "count_message obj t =
     (case get_prop obj ''message'' of
        Inl e \<Rightarrow> (t, True)
      | Inr msg \<Rightarrow>
          (let content = get_prop_opt msg ''content'' in
           if truthy content
           then (case content of
                   JStr s \<Rightarrow> (plus_length t (length s), False)
                 | JArr blocks \<Rightarrow> message_blocks blocks t
                 | _ \<Rightarrow> (t, False))
           else (t, False)))"

definition count_result :: "jsval \<Rightarrow> total \<Rightarrow> total \<times> bool" where
  "count_result obj t =
     (let content = get_prop_opt (get_prop_opt obj ''result'') ''content'' in
      if truthy content
      then (case content of
              JStr s \<Rightarrow> (plus_length t (length s), False)
            | JArr blocks \<Rightarrow> result_blocks blocks t
            | _ \<Rightarrow> (t, False))
      else (t, False))"

text \<open>
  One turn of the loop over the lines.  \<open>parse\<close> is \<^verbatim>\<open>JSON.parse\<close>, \<open>None\<close> when it throws.
  Whatever is thrown inside the \<^verbatim>\<open>try\<close> block ends the turn and nothing else.
\<close>

definition count_line :: "(string \<Rightarrow> jsval option) \<Rightarrow> total \<Rightarrow> string \<Rightarrow> total" where
  "count_line parse t line =
     (if trim line = [] then t
      else
        (case parse line of
           None \<Rightarrow> t
         | Some obj \<Rightarrow>
             (let (t1, threw) = count_message obj t in
              if threw then t1 else fst (count_result obj t1))))"

text \<open>
  \<^verbatim>\<open>Math.round(totalChars / 3.7)\<close> for a natural number of characters.  \<^verbatim>\<open>Math.round\<close>
  rounds to the nearest integer, halves upwards.  The source divides in floating point;
  the model divides exactly.
\<close>

definition round_chars :: "nat \<Rightarrow> int" where
  "round_chars n = \<lfloor>real n / 3.7 + 1 / 2\<rfloor>"

text \<open>What the call comes to: a number returned, or \<open>Undetermined\<close> after a sum marked \<open>Beyond\<close>.\<close>

datatype estimate = Returns jsnumber | Undetermined

fun round_total :: "total \<Rightarrow> estimate" where
  "round_total (Count n) = Returns (Fin (round_chars n))"
| "round_total NotANumber = Returns NaN"
| "round_total Beyond = Undetermined"

definition estimateSessionTokens ::
  "(string \<Rightarrow> jsval option) \<Rightarrow> Projects \<Rightarrow> string \<Rightarrow> estimate" where
  "estimateSessionTokens parse fs sid =
     (case findTranscriptPath fs sid of
        None \<Rightarrow> Returns (Fin 0)
      | Some (dir, filename) \<Rightarrow>
          round_total (foldl (count_line parse) (Count 0) (split_lines (text_at fs dir filename))))"

text \<open>
  Transcripts for the examples.  The stand-in for \<^verbatim>\<open>JSON.parse\<close> knows the lines that
  occur in them by name and fails on every other text.  Line \<open>m100\<close> is a message whose
  content is a string of 100 characters; \<open>m170\<close> is a message of two blocks, one with a
  text of 120 characters and one with a content of 50; \<open>r100\<close> is a result whose content
  is a string of 100 characters; \<open>text5\<close> is a message with one block whose text is the
  number 5; \<open>rblock\<close> is a result with one block whose content is a string of 37
  characters, and \<open>mblock\<close> is a message with that same block.
\<close>

definition block37 :: jsval where
  "block37 = JObj [(''type'', JStr ''tool_result''), (''content'', JStr (replicate 37 CHR ''x''))]"

definition example_json :: "string \<Rightarrow> jsval option" where
  "example_json line =
     (if line = ''m100'' then
        Some (JObj [(''message'', JObj [(''content'', JStr (replicate 100 CHR ''a''))])])
      else if line = ''m170'' then
        Some (JObj [(''message'', JObj [(''content'',
          JArr [JObj [(''type'', JStr ''text''), (''text'', JStr (replicate 120 CHR ''b''))],
                JObj [(''type'', JStr ''tool_result''), (''content'', JStr (replicate 50 CHR ''c''))]])])])
      else if line = ''r100'' then
        Some (JObj [(''result'', JObj [(''content'', JStr (replicate 100 CHR ''d''))])])
      else if line = ''text5'' then
        Some (JObj [(''message'', JObj [(''content'',
          JArr [JObj [(''type'', JStr ''text''), (''text'', JNum ''5'')]])])])
      else if line = ''rblock'' then
        Some (JObj [(''result'', JObj [(''content'', JArr [block37])])])
      else if line = ''mblock'' then
        Some (JObj [(''message'', JObj [(''content'', JArr [block37])])])
      else None)"

text \<open>One project directory \<open>p\<close> holding a single transcript, \<open>s.jsonl\<close>, with the given text.\<close>

definition one_transcript :: "string \<Rightarrow> Projects" where
  "one_transcript text =
     \<lparr>readdir = Some [''p''],
      stat_ok = (\<lambda>dir name. dir = ''p'' \<and> name = ''s.jsonl''),
      text_at = (\<lambda>dir name. text)\<rparr>"

definition nl :: string where
  "nl = [CHR 0x0A]"

text \<open>
  Records of the expected shape.  A block is as expected when its \<^verbatim>\<open>text\<close>, if truthy, is
  a string or an array; a parsed line is as expected when the blocks of its message content
  and of its result content are.
\<close>

definition text_ok :: "jsval \<Rightarrow> bool" where
  "text_ok block =
     (case get_prop block ''text'' of
        Inl e \<Rightarrow> True
      | Inr tx \<Rightarrow> \<not> truthy tx \<or> (case tx of JStr s \<Rightarrow> True | JArr xs \<Rightarrow> True | _ \<Rightarrow> False))"

definition blocks_ok :: "jsval \<Rightarrow> bool" where
  "blocks_ok content = (case content of JArr blocks \<Rightarrow> \<forall>b \<in> set blocks. text_ok b | _ \<Rightarrow> True)"

definition record_ok :: "jsval \<Rightarrow> bool" where
  "record_ok obj =
     (blocks_ok (get_prop_opt (get_prop_opt obj ''message'') ''content'') \<and>
      blocks_ok (get_prop_opt (get_prop_opt obj ''result'') ''content''))"

section \<open>Rotation policy (runner.ts, checkAndRotate)\<close>

definition DEFAULT_ROTATION_THRESHOLD :: real where
  "DEFAULT_ROTATION_THRESHOLD = 120000"

text \<open>\<^verbatim>\<open>tokens < threshold\<close>: a comparison with \<^verbatim>\<open>NaN\<close> is false.\<close>

fun js_less :: "jsnumber \<Rightarrow> real \<Rightarrow> bool" where
  "js_less (Fin n) th = (real_of_int n < th)"
| "js_less NaN th = False"
| "js_less PosInf th = False"
| "js_less NegInf th = True"

text \<open>
  A number in a template literal.  Integers print in decimal (below \<open>10\<^sup>2\<^sup>1\<close> in
  magnitude, which sums of lengths are).
\<close>

definition show_int :: "int \<Rightarrow> string" where
  "show_int n = (if n < 0 then ''-'' @ show_nat (nat (- n)) else show_nat (nat n))"

fun show_number :: "jsnumber \<Rightarrow> string" where
  "show_number (Fin n) = show_int n"
| "show_number NaN = ''NaN''"
| "show_number PosInf = ''Infinity''"
| "show_number NegInf = ''-Infinity''"

text \<open>
  \<open>est\<close> stands for awaiting \<^verbatim>\<open>estimateSessionTokens(entry.sessionId)\<close> in the file system
  of the moment: it throws (the session id has to be printed for the file name) or returns
  a number, for a session id that is a string the number that \<open>estimateSessionTokens\<close>
  above returns.  \<open>threshold\<close> is
  \<^verbatim>\<open>settings.sessionRotation?.threshold\<close>, \<open>None\<close> when it is not set.  The function returns
  the exception it ends with, if any, and the store it leaves.
\<close>

definition checkAndRotate ::
  "(jsval \<Rightarrow> js_error + jsnumber) \<Rightarrow> real option \<Rightarrow> string \<Rightarrow> nat \<Rightarrow> string \<Rightarrow> Store
     \<Rightarrow> js_error option \<times> Store" where
  "checkAndRotate est threshold_setting now now_ms grp st =
     (case getSessionForGroup now grp st of
        (None, st1) \<Rightarrow> (None, st1)
      | (Some entry, st1) \<Rightarrow>
          (case est (sessionId entry) of
             Inl e \<Rightarrow> (Some e, st1)
           | Inr tokens \<Rightarrow>
               (let st2 = updateTokenCount grp tokens st1;
                    threshold = (case threshold_setting of
                                   Some t \<Rightarrow> t
                                 | None \<Rightarrow> DEFAULT_ROTATION_THRESHOLD)
                in if js_less tokens threshold then (None, st2)
                   else (None,
                         snd (rotateSession now_ms grp
                                (Some (''Auto-rotated at '' @ show_number tokens @ '' tokens''))
                                st2)))))"

text \<open>
  A store whose one entry, for the group \<open>ops\<close>, is the session \<open>s\<close> of the transcripts
  above.
\<close>

definition session_s_store :: Store where
  "session_s_store = \<lparr>cached = None,
     disk = Some \<lparr>sessions =
       [\<lparr>sessionId = JStr ''s'', group = ''ops'', createdAt = ''t0'', lastUsedAt = ''t0'',
         contentTokens = Fin 5, summary = None\<rparr>]\<rparr>\<rparr>"

section \<open>Invocation executor (runner.ts, execClaude)\<close>

record ModelConfig =
  model :: string
  api :: string

text \<open>
  The settings the executor reads.  \<open>fallback\<close> is \<open>None\<close> when the settings have no
  fallback; \<open>rotation_threshold\<close> is \<^verbatim>\<open>sessionRotation?.threshold\<close>.
\<close>

record Settings =
  settings_model :: string
  settings_api :: string
  fallback :: "ModelConfig option"
  rotation_threshold :: "real option"

text \<open>
  The options of a run that bear on sessions and on the model.  The tool, effort, turn and
  setting-source overrides only add arguments for the child and are left out.
\<close>

record RunOptions =
  sessionGroup :: "string option"
  model_override :: "string option"
  noSessionPersistence :: bool

text \<open>What one run of the child gives back, and what \<open>execClaude\<close> returns.\<close>

record ChildExit =
  rawStdout :: string
  rawStderr :: string
  rawExitCode :: int

record RunResult =
  stdout :: jsval
  stderr :: string
  exitCode :: int

text \<open>
  Of the argument list the model keeps the prompt, the output format and the resume token.
  The other arguments (security flags, overrides, the appended system prompt) are built
  from settings and prompt files and only reach the child.
\<close>

record Invocation =
  prompt :: string
  outputFormat :: string
  resume :: "jsval option"

text \<open>The clock readings one call makes, in the order it makes them.\<close>

record Clock =
  t_check :: string
  ms_rotate :: nat
  t_get :: string
  t_created :: string
  t_lastUsed :: string

text \<open>
  The surroundings of one call: \<^verbatim>\<open>JSON.parse\<close>, the estimator, the settings, the clock,
  and the child process.  The child is run at most twice with the same arguments and
  environment, so its outcome is a function of the model and the credentials.
\<close>

record Env =
  JSON_parse :: "string \<Rightarrow> jsval option"
  estimator :: "jsval \<Rightarrow> js_error + jsnumber"
  settings :: Settings
  clock :: Clock
  runClaudeOnce :: "Invocation \<Rightarrow> string \<Rightarrow> string \<Rightarrow> ChildExit"

text \<open>
  \<^verbatim>\<open>/you(?:'|')ve hit your limit/i\<close>.  With the \<^verbatim>\<open>i\<close> flag a letter of the pattern matches
  itself and its capital, and nothing else.
\<close>

definition ascii_lower :: "char \<Rightarrow> char" where
  "ascii_lower c = (let n = (of_char c :: nat) in if 65 \<le> n \<and> n \<le> 90 then char_of (n + 32) else c)"

definition RATE_LIMIT_PATTERN_test :: "string \<Rightarrow> bool" where
  "RATE_LIMIT_PATTERN_test s =
     str_includes (map ascii_lower s) (''you'' @ [CHR 0x27] @ ''ve hit your limit'')"

definition extractRateLimitMessage :: "string \<Rightarrow> string \<Rightarrow> string option" where
  "extractRateLimitMessage out err =
     (if trim out \<noteq> [] \<and> RATE_LIMIT_PATTERN_test (trim out) then Some (trim out)
      else if trim err \<noteq> [] \<and> RATE_LIMIT_PATTERN_test (trim err) then Some (trim err)
      else None)"

text \<open>\<^verbatim>\<open>s.toLowerCase()\<close> on the code units below 256: the letters A to Z and the capitals of Latin-1.\<close>

definition lower_char :: "char \<Rightarrow> char" where
  "lower_char c =
     (let n = (of_char c :: nat) in
      if (65 \<le> n \<and> n \<le> 90) \<or> (192 \<le> n \<and> n \<le> 222 \<and> n \<noteq> 215) then char_of (n + 32) else c)"

definition toLowerCase :: "string \<Rightarrow> string" where
  "toLowerCase s = map lower_char s"

definition sameModelConfig :: "ModelConfig \<Rightarrow> ModelConfig \<Rightarrow> bool" where
  "sameModelConfig a b =
     (toLowerCase (trim (model a)) = toLowerCase (trim (model b)) \<and> trim (api a) = trim (api b))"

definition hasModelConfig :: "ModelConfig \<Rightarrow> bool" where
  "hasModelConfig v = (length (trim (model v)) > 0 \<or> length (trim (api v)) > 0)"

text \<open>\<^verbatim>\<open>if (options?.sessionGroup)\<close>: the group is set and is not the empty string.\<close>

definition grouped :: "RunOptions \<Rightarrow> bool" where
  "grouped options = (case sessionGroup options of Some g \<Rightarrow> g \<noteq> [] | None \<Rightarrow> False)"

definition group_of :: "RunOptions \<Rightarrow> string" where
  "group_of options = (case sessionGroup options of Some g \<Rightarrow> g | None \<Rightarrow> ''default'')"

text \<open>
  The first part of \<open>execClaude\<close>: rotation, then the lookup of the session to resume.
  \<^verbatim>\<open>getSession()\<close> of sessions.ts is \<open>getSessionForGroup\<close> on the group \<^verbatim>\<open>default\<close>.
  The result is the exception the part ends with or the session id found, and the store.
\<close>

definition find_existing :: "Env \<Rightarrow> RunOptions \<Rightarrow> Store \<Rightarrow> (js_error + jsval option) \<times> Store" where
  "find_existing env options st =
     (if noSessionPersistence options then (Inr None, st)
      else
        (let (err, st0) =
               (if grouped options
                then checkAndRotate (estimator env) (rotation_threshold (settings env))
                       (t_check (clock env)) (ms_rotate (clock env)) (group_of options) st
                else (None, st))
         in case err of
              Some e \<Rightarrow> (Inl e, st0)
            | None \<Rightarrow>
                (let (entry, st1) =
                       getSessionForGroup (t_get (clock env))
                         (if grouped options then group_of options else ''default'') st0
                 in (Inr (map_option sessionId entry), st1))))"

text \<open>
  \<^verbatim>\<open>existing!.sessionId.slice(0, 8)\<close> inside the template of the first log line: only a
  string and an array have a \<^verbatim>\<open>slice\<close> to call, and the slice is then printed.
\<close>

fun resume_label :: "jsval \<Rightarrow> js_error + string" where
  "resume_label (JStr s) = Inr (take 8 s)"
| "resume_label (JArr xs) = js_String (JArr (take 8 xs))"
| "resume_label v = Inl TypeError"

text \<open>
  The runs of the child: the primary one, and one more with the fallback configuration
  when the primary output carries the rate-limit message and a distinct fallback is
  configured.  The result is the outcome that counts, \<open>usedFallback\<close>, and the
  configurations the child was run with, in order.
\<close>

definition run_with_fallback ::
  "Env \<Rightarrow> RunOptions \<Rightarrow> Invocation \<Rightarrow> ChildExit \<times> bool \<times> ModelConfig list" where
  "run_with_fallback env options invocation =
     (let primaryConfig =
            \<lparr>model = (case model_override options of Some m \<Rightarrow> m | None \<Rightarrow> settings_model (settings env)),
             api = settings_api (settings env)\<rparr>;
          fallbackConfig =
            (case fallback (settings env) of Some f \<Rightarrow> f | None \<Rightarrow> \<lparr>model = [], api = []\<rparr>);
          exec = runClaudeOnce env invocation (model primaryConfig) (api primaryConfig);
          primaryRateLimit = extractRateLimitMessage (rawStdout exec) (rawStderr exec)
      in if primaryRateLimit \<noteq> None \<and> hasModelConfig fallbackConfig \<and>
            \<not> sameModelConfig primaryConfig fallbackConfig
         then (runClaudeOnce env invocation (model fallbackConfig) (api fallbackConfig), True,
               [primaryConfig, fallbackConfig])
         else (exec, False, [primaryConfig]))"

text \<open>
  The part after the runs: the reported output, the session id for the log, and the
  registry update.  Whatever is thrown inside the \<^verbatim>\<open>try\<close> block is caught; what was
  assigned before stays assigned.
\<close>

definition read_output ::
  "Env \<Rightarrow> RunOptions \<Rightarrow> jsval option \<Rightarrow> ChildExit \<Rightarrow> Store \<Rightarrow> (jsval \<times> jsval) \<times> Store" where
  "read_output env options existing exec st =
     (let isNew = (existing = None);
          sessionId0 = (case existing of Some sid \<Rightarrow> nullish sid (JStr ''unknown'')
                        | None \<Rightarrow> JStr ''unknown'');
          rateLimitMessage = extractRateLimitMessage (rawStdout exec) (rawStderr exec)
      in case rateLimitMessage of
           Some m \<Rightarrow> ((JStr m, sessionId0), st)
         | None \<Rightarrow>
             if isNew \<and> rawExitCode exec = 0
             then
               (case JSON_parse env (rawStdout exec) of
                  None \<Rightarrow> ((JStr (rawStdout exec), sessionId0), st)
                | Some json \<Rightarrow>
                    (case get_prop json ''session_id'' of
                       Inl e \<Rightarrow> ((JStr (rawStdout exec), sessionId0), st)
                     | Inr sid \<Rightarrow>
                         (let out = nullish (get_prop_opt json ''result'') (JStr []) in
                          if grouped options
                          then ((out, sid),
                                snd (createSessionForGroup (t_created (clock env))
                                       (t_lastUsed (clock env)) (group_of options) sid st))
                          else if \<not> noSessionPersistence options
                          then ((out, sid),
                                snd (createSessionForGroup (t_created (clock env))
                                       (t_lastUsed (clock env)) ''default'' sid st))
                          else ((out, sid), st))))
             else ((JStr (rawStdout exec), sessionId0), st))"

definition invocation_for :: "string \<Rightarrow> jsval option \<Rightarrow> Invocation" where
  "invocation_for prompt_text existing =
     \<lparr>prompt = prompt_text,
      outputFormat = (if existing = None then ''json'' else ''text''),
      resume = existing\<rparr>"

text \<open>What a finished call reports: its result, and how the child was run.\<close>

record Report =
  result :: RunResult
  usedFallback :: bool
  calls :: "ModelConfig list"

text \<open>
  \<open>execClaude\<close>.  The name of the run only names the log file and is left out.  The log
  text is built from templates and a \<^verbatim>\<open>join\<close>, which print the
  session id and the output; a value that cannot be printed makes the call throw there,
  after the registry has been updated.  The log file itself is left out.
\<close>

definition execClaude :: "Env \<Rightarrow> string \<Rightarrow> RunOptions \<Rightarrow> Store \<Rightarrow> (js_error + Report) \<times> Store" where
  "execClaude env prompt_text options st =
     (case find_existing env options st of
        (Inl e, st1) \<Rightarrow> (Inl e, st1)
      | (Inr existing, st1) \<Rightarrow>
          (case (case existing of None \<Rightarrow> Inr [] | Some sid \<Rightarrow> resume_label sid) of
             Inl e \<Rightarrow> (Inl e, st1)
           | Inr label \<Rightarrow>
               (let (exec, used, configs) =
                      run_with_fallback env options (invocation_for prompt_text existing);
                    ((out, sid), st2) = read_output env options existing exec st1
                in case js_String sid of
                     Inl e \<Rightarrow> (Inl e, st2)
                   | Inr shown_sid \<Rightarrow>
                       (case (if out = JUndefined \<or> out = JNull then Inr [] else js_String out) of
                          Inl e \<Rightarrow> (Inl e, st2)
                        | Inr shown_out \<Rightarrow>
                            (Inr \<lparr>result = \<lparr>stdout = out, stderr = rawStderr exec,
                                              exitCode = rawExitCode exec\<rparr>,
                                   usedFallback = used, calls = configs\<rparr>, st2)))))"

text \<open>
  Surroundings for the examples.  The primary model is \<open>opus\<close>, the fallback \<open>glm\<close>
  with its own key.  \<open>limit_text\<close> is a rate-limit message in capitals and small letters.
  The child \<open>limited_child\<close> prints that message when run with \<open>opus\<close> and a structured
  result for session \<open>abc123\<close> otherwise; \<open>plain_child\<close> always prints the structured
  result; \<open>garbled_child\<close> always prints a text that does not parse.
\<close>

definition limit_text :: string where
  "limit_text = ''You'' @ [CHR 0x27] @ ''ve Hit Your Limit - resets 5pm''"

definition example_clock :: Clock where
  "example_clock = \<lparr>t_check = ''t1'', ms_rotate = 42, t_get = ''t2'', t_created = ''t3'', t_lastUsed = ''t4''\<rparr>"

definition example_settings :: Settings where
  "example_settings =
     \<lparr>settings_model = ''opus'', settings_api = [],
      fallback = Some \<lparr>model = ''glm'', api = ''key''\<rparr>, rotation_threshold = None\<rparr>"

definition structured_parse :: "string \<Rightarrow> jsval option" where
  "structured_parse s =
     (if s = ''structured'' then Some (JObj [(''session_id'', JStr ''abc123''), (''result'', JStr ''hi'')])
      else None)"

definition limited_child :: "Invocation \<Rightarrow> string \<Rightarrow> string \<Rightarrow> ChildExit" where
  "limited_child i m a =
     (if m = ''opus'' then \<lparr>rawStdout = limit_text, rawStderr = [], rawExitCode = 1\<rparr>
      else \<lparr>rawStdout = ''structured'', rawStderr = [], rawExitCode = 0\<rparr>)"

definition plain_child :: "Invocation \<Rightarrow> string \<Rightarrow> string \<Rightarrow> ChildExit" where
  "plain_child i m a = \<lparr>rawStdout = ''structured'', rawStderr = [], rawExitCode = 0\<rparr>"

definition garbled_child :: "Invocation \<Rightarrow> string \<Rightarrow> string \<Rightarrow> ChildExit" where
  "garbled_child i m a = \<lparr>rawStdout = ''garbled'', rawStderr = [], rawExitCode = 0\<rparr>"

definition example_env :: "(Invocation \<Rightarrow> string \<Rightarrow> string \<Rightarrow> ChildExit) \<Rightarrow> Settings \<Rightarrow> Env" where
  "example_env child s =
     \<lparr>JSON_parse = structured_parse, estimator = (\<lambda>sid. Inr (Fin 0)), settings = s,
      clock = example_clock, runClaudeOnce = child\<rparr>"

definition ops_options :: RunOptions where
  "ops_options = \<lparr>sessionGroup = Some ''ops'', model_override = None, noSessionPersistence = False\<rparr>"

definition empty_store :: Store where
  "empty_store = \<lparr>cached = None, disk = None\<rparr>"

section \<open>Execution queue (runner.ts, enqueue and run)\<close>

text \<open>
  \<open>enqueue\<close> builds two promises for each task it is given: \<^verbatim>\<open>task = prev.then(fn, fn)\<close>,
  which calls \<open>fn\<close> once \<open>prev\<close> has settled either way and then settles as the promise
  that \<open>fn\<close> returns does, and \<^verbatim>\<open>task.catch(() => {})\<close>, the tail, which is fulfilled once
  \<open>task\<close> has settled either way.  The tail is what \<open>groupQueues\<close> keeps for the key;
  \<open>task\<close> is what the caller gets.

  Tasks are numbered in the order of submission.  For task \<open>i\<close> the model keeps its key,
  its \<open>prev\<close> (the number of the task whose tail it chains on, \<open>None\<close> for the fulfilled
  \<^verbatim>\<open>Promise.resolve()\<close>), the phase of the promise \<open>task\<close>, and whether its tail is
  fulfilled.  \<open>finished\<close> logs the tasks in the order in which they settle.
\<close>

datatype outcome = Succeeded | Failed

datatype phase = Waiting | Running | Settled outcome

record Queue =
  next_id :: nat
  key_of :: "nat \<Rightarrow> string"
  prev_of :: "nat \<Rightarrow> nat option"
  phase_of :: "nat \<Rightarrow> phase"
  tail_of :: "nat \<Rightarrow> bool"
  groupQueues :: "(string \<times> nat) list"
  statelessCounter :: nat
  finished :: "nat list"

definition initial_queue :: Queue where
  "initial_queue =
     \<lparr>next_id = 0, key_of = (\<lambda>i. []), prev_of = (\<lambda>i. None), phase_of = (\<lambda>i. Waiting),
      tail_of = (\<lambda>i. False), groupQueues = [], statelessCounter = 0, finished = []\<rparr>"

text \<open>\<open>enqueue\<close> returns the number of the new task, which stands for the promise \<open>task\<close>.\<close>

definition enqueue :: "string \<Rightarrow> Queue \<Rightarrow> nat \<times> Queue" where
  "enqueue key q =
     (let prev = map_get (groupQueues q) key;
          task = next_id q
      in (task,
          q\<lparr>next_id := Suc task,
            key_of := (key_of q)(task := key),
            prev_of := (prev_of q)(task := prev),
            phase_of := (phase_of q)(task := Waiting),
            tail_of := (tail_of q)(task := False),
            groupQueues := map_set key task (groupQueues q)\<rparr>))"

definition run :: "RunOptions \<Rightarrow> Queue \<Rightarrow> nat \<times> Queue" where
  "run options q =
     (if noSessionPersistence options
      then (let c = Suc (statelessCounter q)
            in enqueue (''__stateless_'' @ show_nat c) (q\<lparr>statelessCounter := c\<rparr>))
      else enqueue (group_of options) q)"

text \<open>
  What can happen to the queue: a submission, through \<open>run\<close> or \<open>enqueue\<close>; the reaction
  of a \<open>task\<close> promise to its \<open>prev\<close>, which calls \<open>fn\<close>; the promise returned by \<open>fn\<close>
  settling, with which \<open>task\<close> settles; and the reaction of a tail to its \<open>task\<close>.
  \<open>step\<close> is \<open>None\<close> when the event cannot happen in the state.
\<close>

datatype event =
    Run RunOptions
  | Enqueue string
  | Start nat
  | Finish nat outcome
  | Swallow nat

definition is_settled :: "phase \<Rightarrow> bool" where
  "is_settled p = (case p of Settled r \<Rightarrow> True | _ \<Rightarrow> False)"

fun step :: "event \<Rightarrow> Queue \<Rightarrow> Queue option" where
  "step (Run options) q = Some (snd (run options q))"
| "step (Enqueue key) q = Some (snd (enqueue key q))"
| "step (Start i) q =
     (if i < next_id q \<and> phase_of q i = Waiting \<and>
         (case prev_of q i of None \<Rightarrow> True | Some p \<Rightarrow> tail_of q p)
      then Some (q\<lparr>phase_of := (phase_of q)(i := Running)\<rparr>)
      else None)"
| "step (Finish i r) q =
     (if i < next_id q \<and> phase_of q i = Running
      then Some (q\<lparr>phase_of := (phase_of q)(i := Settled r), finished := finished q @ [i]\<rparr>)
      else None)"
| "step (Swallow i) q =
     (if i < next_id q \<and> is_settled (phase_of q i) \<and> \<not> tail_of q i
      then Some (q\<lparr>tail_of := (tail_of q)(i := True)\<rparr>)
      else None)"

fun run_events :: "event list \<Rightarrow> Queue \<Rightarrow> Queue option" where
  "run_events [] q = Some q"
| "run_events (e # es) q = (case step e q of None \<Rightarrow> None | Some q' \<Rightarrow> run_events es q')"

text \<open>
  The invariant of the queue.  The chain of a key is in submission order: \<open>prev\<close> of a task
  is the last earlier task with its key, and \<open>groupQueues\<close> holds the last task of each
  key.  A fulfilled tail belongs to a settled task, a task that has been started has all
  earlier tasks of its key behind it with their tails fulfilled, and the log holds settled
  tasks, the tasks of one key in submission order.
\<close>

definition chain_rel ::
  "nat \<Rightarrow> (nat \<Rightarrow> string) \<Rightarrow> (nat \<Rightarrow> nat option) \<Rightarrow> (string \<times> nat) list \<Rightarrow> bool" where
  "chain_rel n key prev queues \<longleftrightarrow>
     (\<forall>i < n. prev i = None \<longrightarrow> (\<forall>k < i. key k \<noteq> key i)) \<and>
     (\<forall>i < n. \<forall>p. prev i = Some p \<longrightarrow>
        p < i \<and> key p = key i \<and> (\<forall>k. p < k \<and> k < i \<longrightarrow> key k \<noteq> key i)) \<and>
     (\<forall>g. map_get queues g = None \<longrightarrow> (\<forall>k < n. key k \<noteq> g)) \<and>
     (\<forall>g p. map_get queues g = Some p \<longrightarrow>
        p < n \<and> key p = g \<and> (\<forall>k. p < k \<and> k < n \<longrightarrow> key k \<noteq> g))"

definition chain_ok :: "Queue \<Rightarrow> bool" where
  "chain_ok q = chain_rel (next_id q) (key_of q) (prev_of q) (groupQueues q)"

definition queue_inv :: "Queue \<Rightarrow> bool" where
  "queue_inv q \<longleftrightarrow>
     chain_ok q \<and>
     (\<forall>i. next_id q \<le> i \<longrightarrow> phase_of q i = Waiting \<and> \<not> tail_of q i) \<and>
     (\<forall>i. tail_of q i \<longrightarrow> is_settled (phase_of q i)) \<and>
     (\<forall>j < next_id q. phase_of q j \<noteq> Waiting \<longrightarrow>
        (\<forall>i < j. key_of q i = key_of q j \<longrightarrow> tail_of q i)) \<and>
     (\<forall>i. i \<in> set (finished q) \<longleftrightarrow> is_settled (phase_of q i)) \<and>
     distinct (finished q) \<and>
     sorted_wrt (\<lambda>a b. key_of q a = key_of q b \<longrightarrow> a < b) (finished q)"

text \<open>The tasks that settle in a sequence of events, in the order in which they settle.\<close>

fun finish_ids :: "event list \<Rightarrow> nat list" where
  "finish_ids [] = []"
| "finish_ids (Finish i r # es) = i # finish_ids es"
| "finish_ids (e # es) = finish_ids es"

text \<open>
  The keys under which a sequence of events submits tasks, in order; \<open>c\<close> is the count of
  stateless runs before the sequence.
\<close>

fun submitted :: "nat \<Rightarrow> event list \<Rightarrow> string list" where
  "submitted c [] = []"
| "submitted c (Run options # es) =
     (if noSessionPersistence options
      then (''__stateless_'' @ show_nat (Suc c)) # submitted (Suc c) es
      else group_of options # submitted c es)"
| "submitted c (Enqueue key # es) = key # submitted c es"
| "submitted c (e # es) = submitted c es"

text \<open>
  The promises handed to the callers in a sequence of events, in the order of the
  submissions: what \<open>run\<close> and \<open>enqueue\<close> return.
\<close>

fun handed :: "event list \<Rightarrow> Queue \<Rightarrow> nat list" where
  "handed [] q = []"
| "handed (Run options # es) q = fst (run options q) # handed es (snd (run options q))"
| "handed (Enqueue key # es) q = fst (enqueue key q) # handed es (snd (enqueue key q))"
| "handed (e # es) q = (case step e q of None \<Rightarrow> [] | Some q' \<Rightarrow> handed es q')"

text \<open>
  An example: two runs are submitted for the group \<open>ops\<close> and a stateless one; the first
  \<open>ops\<close> task starts and fails, its tail reacts, and the second starts and succeeds.
\<close>

definition example_events :: "event list" where
  "example_events =
     [Run ops_options, Run ops_options,
      Run \<lparr>sessionGroup = None, model_override = None, noSessionPersistence = True\<rparr>,
      Start 0, Start 2, Finish 0 Failed, Swallow 0, Start 1, Finish 1 Succeeded]"

section \<open>Facts about lists\<close>


lemma findIndex_Some: "findIndex p xs = Some i \<Longrightarrow> i < length xs \<and> p (xs ! i)"
  by (induction xs arbitrary: i) (auto split: if_splits)

lemma findIndex_None: "findIndex p xs = None \<Longrightarrow> \<forall>x\<in>set xs. \<not> p x"
  by (induction xs) (auto split: if_splits)

lemma findIndex_first: "findIndex p xs = Some i \<Longrightarrow> j < i \<Longrightarrow> \<not> p (xs ! j)"
  by (induction xs arbitrary: i j) (auto split: if_splits simp: nth_Cons')

lemma length_filter_update_le:
  "i < length xs \<Longrightarrow> (q y \<longrightarrow> q (xs ! i)) \<Longrightarrow> length (filter q (xs[i := y])) \<le> length (filter q xs)"
  by (induction xs arbitrary: i) (auto split: nat.splits)

section \<open>The registry keeps at most one live entry per group\<close>

lemma current_load [simp]: "current (snd (load st)) = current st"
  by (auto simp: current_def load_def split: option.splits)

lemma load_fst: "sessions (fst (load st)) = current st"
  by (simp add: current_def)

lemma current_save [simp]: "current (save reg st) = sessions reg"
  by (simp add: current_def load_def save_def)

lemma load_eqD: "load st = (reg, st1) \<Longrightarrow> current st1 = sessions reg \<and> current st = sessions reg"
  by (auto simp: current_def load_def split: option.splits)

lemma current_get:
  "current (snd (getSessionForGroup now grp st)) =
     (case findIndex (\<lambda>s. group s = grp) (current st) of
        None \<Rightarrow> current st
      | Some i \<Rightarrow> (current st)[i := (current st ! i)\<lparr>lastUsedAt := now\<rparr>])"
  by (cases "load st") (auto simp: getSessionForGroup_def Let_def split: option.splits dest!: load_eqD)

lemma current_create:
  "current (snd (createSessionForGroup now1 now2 grp sid st)) =
     (let entry = \<lparr>sessionId = sid, group = grp, createdAt = now1, lastUsedAt = now2,
                   contentTokens = Fin 0, summary = None\<rparr> in
      case findIndex (\<lambda>s. group s = grp) (current st) of
        None \<Rightarrow> current st @ [entry]
      | Some i \<Rightarrow> (current st)[i := entry])"
  by (cases "load st") (auto simp: createSessionForGroup_def Let_def split: option.splits dest!: load_eqD)

lemma current_update:
  "current (updateTokenCount grp tokens st) =
     (case findIndex (\<lambda>s. group s = grp) (current st) of
        None \<Rightarrow> current st
      | Some i \<Rightarrow> (current st)[i := (current st ! i)\<lparr>contentTokens := tokens\<rparr>])"
  by (cases "load st") (auto simp: updateTokenCount_def Let_def split: option.splits dest!: load_eqD)

lemma group_archived_entry [simp]: "group (archived_entry now_ms grp summ old) = archiveGroup grp now_ms"
  by (simp add: archived_entry_def split: option.splits)

lemma current_rotate:
  "current (snd (rotateSession now_ms grp summ st)) =
     (case findIndex (\<lambda>s. group s = grp) (current st) of
        None \<Rightarrow> current st
      | Some i \<Rightarrow> (current st)[i := archived_entry now_ms grp summ (current st ! i)])"
  by (cases "load st")
     (auto simp: rotateSession_def archived_entry_def Let_def split: option.splits dest!: load_eqD)

lemma current_list [simp]: "current (snd (listSessions st)) = current st"
  by (cases "load st") (auto simp: listSessions_def dest!: load_eqD)

lemma current_listAll [simp]: "current (snd (listAllSessions st)) = current st"
  by (cases "load st") (auto simp: listAllSessions_def dest!: load_eqD)

lemma archiveGroup_not_live: "str_includes (archiveGroup grp now_ms) ''__archived_''"
  unfolding str_includes_def archiveGroup_def by (rule sublist_appendI)

lemma length_filter_update_same:
  "i < length xs \<Longrightarrow> q y = q (xs ! i) \<Longrightarrow> length (filter q (xs[i := y])) = length (filter q xs)"
  by (induction xs arbitrary: i) (auto split: nat.splits)

lemma live_update_le:
  assumes "length (filter q xs) \<le> 1" and "findIndex p xs = Some i" and "q y \<Longrightarrow> q (xs ! i)"
  shows "length (filter q (xs[i := y])) \<le> 1"
proof -
  from assms(2) have "i < length xs" by (simp add: findIndex_Some)
  moreover from assms(3) have "q y \<longrightarrow> q (xs ! i)" by blast
  ultimately have "length (filter q (xs[i := y])) \<le> length (filter q xs)"
    by (rule length_filter_update_le)
  with assms(1) show ?thesis by simp
qed

lemma live_apply_op:
  assumes inv: "length (live_entries G st) \<le> 1"
  shows "length (live_entries G (apply_op op st)) \<le> 1"
proof -
  let ?q = "\<lambda>s. group s = G \<and> is_live s"
  from inv have q: "length (filter ?q (current st)) \<le> 1"
    by (simp add: live_entries_def)
  show ?thesis
  proof (cases op)
    case (Get now grp)
    show ?thesis
    proof (cases "findIndex (\<lambda>s. group s = grp) (current st)")
      case None
      with Get inv show ?thesis by (simp add: live_entries_def current_get)
    next
      case (Some i)
      have "length (filter ?q ((current st)[i := (current st ! i)\<lparr>lastUsedAt := now\<rparr>])) \<le> 1"
        using q Some by (rule live_update_le) (auto simp: is_live_def)
      with Get Some show ?thesis by (simp add: live_entries_def current_get)
    qed
  next
    case (Create now1 now2 grp sid)
    let ?e = "\<lparr>sessionId = sid, group = grp, createdAt = now1, lastUsedAt = now2,
               contentTokens = Fin 0, summary = None\<rparr>"
    show ?thesis
    proof (cases "findIndex (\<lambda>s. group s = grp) (current st)")
      case None
      then have "grp = G \<Longrightarrow> filter ?q (current st) = []"
        by (auto simp: filter_empty_conv dest: findIndex_None)
      with None Create q show ?thesis
        by (auto simp: live_entries_def current_create)
    next
      case (Some i)
      then have g: "group (current st ! i) = grp" by (auto dest: findIndex_Some)
      have "length (filter ?q ((current st)[i := ?e])) \<le> 1"
        using q Some by (rule live_update_le) (auto simp: is_live_def g)
      with Create Some show ?thesis by (simp add: live_entries_def current_create)
    qed
  next
    case (UpdateTokenCount grp tokens)
    show ?thesis
    proof (cases "findIndex (\<lambda>s. group s = grp) (current st)")
      case None
      with UpdateTokenCount inv show ?thesis by (simp add: live_entries_def current_update)
    next
      case (Some i)
      have "length (filter ?q ((current st)[i := (current st ! i)\<lparr>contentTokens := tokens\<rparr>])) \<le> 1"
        using q Some by (rule live_update_le) (auto simp: is_live_def)
      with UpdateTokenCount Some show ?thesis by (simp add: live_entries_def current_update)
    qed
  next
    case (Archive now_ms grp summ)
    show ?thesis
    proof (cases "findIndex (\<lambda>s. group s = grp) (current st)")
      case None
      with Archive inv show ?thesis by (simp add: live_entries_def current_rotate)
    next
      case (Some i)
      have "length (filter ?q ((current st)[i := archived_entry now_ms grp summ (current st ! i)])) \<le> 1"
        using q Some by (rule live_update_le) (auto simp: is_live_def archiveGroup_not_live)
      with Archive Some show ?thesis by (simp add: live_entries_def current_rotate)
    qed
  next
    case ListLive
    with inv show ?thesis by (simp add: live_entries_def)
  next
    case ListAll
    with inv show ?thesis by (simp add: live_entries_def)
  qed
qed

lemma live_run_ops:
  "length (live_entries G st) \<le> 1 \<Longrightarrow> length (live_entries G (run_ops ops st)) \<le> 1"
proof (induction ops arbitrary: st)
  case Nil
  then show ?case by simp
next
  case (Cons op ops)
  from Cons.prems have "length (live_entries G (apply_op op st)) \<le> 1"
    by (rule live_apply_op)
  then have "length (live_entries G (run_ops ops (apply_op op st))) \<le> 1"
    by (rule Cons.IH)
  then show ?case by simp
qed


lemma findIndex_update_same:
  "findIndex p xs = Some i \<Longrightarrow> p y \<Longrightarrow> findIndex p (xs[i := y]) = Some i"
  by (induction xs arbitrary: i) (auto split: if_splits)

lemma findIndex_append_new:
  "findIndex p xs = None \<Longrightarrow> p y \<Longrightarrow> findIndex p (xs @ [y]) = Some (length xs)"
  by (induction xs) (auto split: if_splits)

lemma filter_single_update:
  "filter q xs = [e] \<Longrightarrow> i < length xs \<Longrightarrow> q (xs ! i) \<Longrightarrow> q y \<Longrightarrow> filter q (xs[i := y]) = [y]"
proof (induction xs arbitrary: i)
  case Nil
  then show ?case by simp
next
  case (Cons x xs)
  show ?case
  proof (cases i)
    case 0
    with Cons.prems show ?thesis by (auto split: if_splits)
  next
    case (Suc j)
    with Cons.prems have "\<not> q x"
      by (auto split: if_splits simp: filter_empty_conv)
    with Suc Cons show ?thesis by simp
  qed
qed

lemma fst_get:
  "fst (getSessionForGroup now grp st) =
     (case findIndex (\<lambda>s. group s = grp) (current st) of
        None \<Rightarrow> None
      | Some i \<Rightarrow> Some ((current st ! i)\<lparr>lastUsedAt := now\<rparr>))"
  by (cases "load st") (auto simp: getSessionForGroup_def Let_def split: option.splits dest!: load_eqD)

lemma fst_create:
  "fst (createSessionForGroup now1 now2 grp sid st) =
     \<lparr>sessionId = sid, group = grp, createdAt = now1, lastUsedAt = now2,
      contentTokens = Fin 0, summary = None\<rparr>"
  by (cases "load st") (simp add: createSessionForGroup_def Let_def)

lemma fst_list:
  "fst (listSessions st) = filter (\<lambda>s. \<not> str_includes (group s) ''__archived_'') (current st)"
  by (cases "load st") (auto simp: listSessions_def dest!: load_eqD)

lemma get_after_create:
  "fst (getSessionForGroup now grp (snd (createSessionForGroup now1 now2 grp sid st))) =
     Some ((fst (createSessionForGroup now1 now2 grp sid st))\<lparr>lastUsedAt := now\<rparr>)"
proof (cases "findIndex (\<lambda>s. group s = grp) (current st)")
  case None
  then show ?thesis
    by (simp add: fst_get fst_create current_create findIndex_append_new)
next
  case (Some i)
  then have "i < length (current st)" by (simp add: findIndex_Some)
  with Some show ?thesis
    by (simp add: fst_get fst_create current_create findIndex_update_same)
qed

lemma create_replaces:
  assumes "live_entries G st = [e]"
  shows "live_entries G (snd (createSessionForGroup now1 now2 G sid st)) =
           [fst (createSessionForGroup now1 now2 G sid st)] \<and>
         length (current (snd (createSessionForGroup now1 now2 G sid st))) = length (current st)"
proof -
  let ?q = "\<lambda>s. group s = G \<and> is_live s"
  from assms have f: "filter ?q (current st) = [e]" by (simp add: live_entries_def)
  then have "e \<in> set (filter ?q (current st))" by simp
  then have e: "e \<in> set (current st)" "group e = G" "is_live e" by auto
  then obtain i where i: "findIndex (\<lambda>s. group s = G) (current st) = Some i"
    by (cases "findIndex (\<lambda>s. group s = G) (current st)") (auto dest: findIndex_None)
  then have il: "i < length (current st)" and ig: "group (current st ! i) = G"
    by (auto dest: findIndex_Some)
  from e have live: "\<not> str_includes G ''__archived_''" by (auto simp: is_live_def)
  have "filter ?q ((current st)[i := fst (createSessionForGroup now1 now2 G sid st)]) =
          [fst (createSessionForGroup now1 now2 G sid st)]"
    using f il by (rule filter_single_update) (simp_all add: ig is_live_def live fst_create)
  with i show ?thesis
    by (simp add: live_entries_def current_create fst_create)
qed


text \<open>
  Claim C1.  If a group \<open>G\<close> has at most one live entry in the registry, it still has at
  most one after any sequence of \<open>get\<close>, \<open>create\<close>, \<open>updateTokenCount\<close>, \<open>archive\<close>,
  \<open>listLive\<close> and \<open>listAll\<close> operations, whatever their arguments.  In particular, when
  \<open>G\<close> has a live entry, \<open>create\<close> on \<open>G\<close> puts the new entry in its place: the registry
  does not grow, the new entry is the only live entry of \<open>G\<close>, and \<open>get\<close> returns it.
\<close>

theorem registry_one_live_entry_per_group:
  assumes "length (live_entries G st) \<le> 1"
  shows "length (live_entries G (run_ops ops st)) \<le> 1 \<and>
         (\<forall>e. live_entries G st = [e] \<longrightarrow>
            (let (new, st') = createSessionForGroup now1 now2 G sid st in
               live_entries G st' = [new] \<and>
               length (current st') = length (current st) \<and>
               fst (getSessionForGroup now G st') = Some (new\<lparr>lastUsedAt := now\<rparr>)))"
proof -
  have "length (live_entries G (run_ops ops st)) \<le> 1"
    using assms by (rule live_run_ops)
  moreover have "\<forall>e. live_entries G st = [e] \<longrightarrow>
            (let (new, st') = createSessionForGroup now1 now2 G sid st in
               live_entries G st' = [new] \<and>
               length (current st') = length (current st) \<and>
               fst (getSessionForGroup now G st') = Some (new\<lparr>lastUsedAt := now\<rparr>))"
    using create_replaces [of G st _ now1 now2 sid] get_after_create [of now G now1 now2 sid st]
    by (simp add: case_prod_unfold)
  ultimately show ?thesis by blast
qed

theorem registry_one_live_entry_per_group_witness:
  "length (live_entries ''ops'' example_store) \<le> 1 \<and>
   length (live_entries ''ops''
     (run_ops [Get ''t1'' ''ops'', Create ''t2'' ''t2'' ''ops'' (JStr ''s2''),
               UpdateTokenCount ''ops'' (Fin 130000), Archive 42 ''ops'' (Some ''why''),
               ListLive, Create ''t3'' ''t3'' ''ops'' (JStr ''s3''), ListAll] example_store)) \<le> 1 \<and>
   live_entries ''ops'' example_store =
     [\<lparr>sessionId = JStr ''s1'', group = ''ops'', createdAt = ''t0'', lastUsedAt = ''t0'',
       contentTokens = Fin 5, summary = None\<rparr>] \<and>
   live_entries ''ops'' (snd (createSessionForGroup ''t2'' ''t2'' ''ops'' (JStr ''s2'') example_store)) =
     [\<lparr>sessionId = JStr ''s2'', group = ''ops'', createdAt = ''t2'', lastUsedAt = ''t2'',
       contentTokens = Fin 0, summary = None\<rparr>] \<and>
   fst (getSessionForGroup ''t4'' ''ops''
          (snd (createSessionForGroup ''t2'' ''t2'' ''ops'' (JStr ''s2'') example_store))) =
     Some \<lparr>sessionId = JStr ''s2'', group = ''ops'', createdAt = ''t2'', lastUsedAt = ''t4'',
            contentTokens = Fin 0, summary = None\<rparr>"
proof -
  have h: "length (live_entries ''ops'' example_store) \<le> 1"
    by code_simp
  have e: "live_entries ''ops'' example_store =
     [\<lparr>sessionId = JStr ''s1'', group = ''ops'', createdAt = ''t0'', lastUsedAt = ''t0'',
       contentTokens = Fin 5, summary = None\<rparr>]"
    by code_simp
  from registry_one_live_entry_per_group [OF h,
      of "[Get ''t1'' ''ops'', Create ''t2'' ''t2'' ''ops'' (JStr ''s2''),
           UpdateTokenCount ''ops'' (Fin 130000), Archive 42 ''ops'' (Some ''why''),
           ListLive, Create ''t3'' ''t3'' ''ops'' (JStr ''s3''), ListAll]"
         "''t2''" "''t2''" "JStr ''s2''" "''t4''"] e h
  show ?thesis
    by (simp add: case_prod_unfold fst_create Let_def del: run_ops.simps)
qed


text \<open>
  Claim C10.  \<open>listSessions\<close> returns exactly the entries whose group does not contain
  \<^verbatim>\<open>__archived_\<close>.  So when a group name \<open>G\<close> itself contains \<^verbatim>\<open>__archived_\<close>, no
  entry filed under \<open>G\<close> is ever listed, and an entry created under \<open>G\<close> is returned by
  \<open>getSessionForGroup\<close> on \<open>G\<close> while the listing, before and after that read, omits it.
\<close>

theorem listSessions_is_substring_test:
  "fst (listSessions st) = filter (\<lambda>s. \<not> str_includes (group s) ''__archived_'') (current st) \<and>
   (str_includes G ''__archived_'' \<longrightarrow>
      (\<forall>s \<in> set (fst (listSessions st)). group s \<noteq> G) \<and>
      (let (new, st1) = createSessionForGroup now1 now2 G sid st;
           (got, st2) = getSessionForGroup now G st1
       in got = Some (new\<lparr>lastUsedAt := now\<rparr>) \<and>
          group new = G \<and>
          new \<notin> set (fst (listSessions st1)) \<and>
          new\<lparr>lastUsedAt := now\<rparr> \<notin> set (fst (listSessions st2))))"
proof -
  have omit: "\<And>t. str_includes G ''__archived_'' \<Longrightarrow> \<forall>s \<in> set (fst (listSessions t)). group s \<noteq> G"
    by (auto simp: fst_list)
  have "str_includes G ''__archived_'' \<Longrightarrow>
      (let (new, st1) = createSessionForGroup now1 now2 G sid st;
           (got, st2) = getSessionForGroup now G st1
       in got = Some (new\<lparr>lastUsedAt := now\<rparr>) \<and>
          group new = G \<and>
          new \<notin> set (fst (listSessions st1)) \<and>
          new\<lparr>lastUsedAt := now\<rparr> \<notin> set (fst (listSessions st2)))"
    using get_after_create [of now G now1 now2 sid st]
      omit [of "snd (createSessionForGroup now1 now2 G sid st)"]
      omit [of "snd (getSessionForGroup now G (snd (createSessionForGroup now1 now2 G sid st)))"]
    by (auto simp: case_prod_unfold Let_def fst_create)
  with omit [of st] show ?thesis
    by (simp add: fst_list)
qed

theorem listSessions_is_substring_test_witness:
  "str_includes ''x__archived_y'' ''__archived_'' \<and>
   fst (getSessionForGroup ''t2'' ''x__archived_y''
          (snd (createSessionForGroup ''t1'' ''t1'' ''x__archived_y'' (JStr ''s9'') example_store))) =
     Some \<lparr>sessionId = JStr ''s9'', group = ''x__archived_y'', createdAt = ''t1'',
            lastUsedAt = ''t2'', contentTokens = Fin 0, summary = None\<rparr> \<and>
   fst (listSessions (snd (createSessionForGroup ''t1'' ''t1'' ''x__archived_y'' (JStr ''s9'') example_store))) =
     [\<lparr>sessionId = JStr ''s1'', group = ''ops'', createdAt = ''t0'', lastUsedAt = ''t0'',
       contentTokens = Fin 5, summary = None\<rparr>]"
proof -
  have h: "str_includes ''x__archived_y'' ''__archived_''"
    by code_simp
  have l: "fst (listSessions (snd (createSessionForGroup ''t1'' ''t1'' ''x__archived_y'' (JStr ''s9'') example_store))) =
     [\<lparr>sessionId = JStr ''s1'', group = ''ops'', createdAt = ''t0'', lastUsedAt = ''t0'',
       contentTokens = Fin 5, summary = None\<rparr>]"
    by code_simp
  from listSessions_is_substring_test
         [of example_store "''x__archived_y''" "''t1''" "''t1''" "JStr ''s9''" "''t2''"] h l
  show ?thesis
    by (simp add: case_prod_unfold Let_def fst_create)
qed

section \<open>The reply-route map stays bounded\<close>

lemma length_map_set_le: "length (map_set k v m) \<le> Suc (length m)"
  by (induction m) auto

lemma keys_map_set:
  "map fst (map_set k v m) = (if k \<in> set (map fst m) then map fst m else map fst m @ [k])"
proof (induction m)
  case Nil
  then show ?case by simp
next
  case (Cons p m)
  obtain k' v' where p: "p = (k', v')" by (cases p)
  have "k \<in> fst ` set m \<longleftrightarrow> (\<exists>w. (k, w) \<in> set m)" by force
  with Cons p show ?case by auto
qed

lemma distinct_map_set: "distinct (map fst m) \<Longrightarrow> distinct (map fst (map_set k v m))"
  by (simp add: keys_map_set)

lemma map_set_append_new: "k \<notin> fst ` set m \<Longrightarrow> map_set k v m = m @ [(k, v)]"
  by (induction m) auto

lemma foldl_map_set_distinct:
  "distinct (map fst (acc @ xs)) \<Longrightarrow> foldl (\<lambda>m (k, v). map_set k v m) acc xs = acc @ xs"
proof (induction xs arbitrary: acc)
  case Nil
  then show ?case by simp
next
  case (Cons x xs)
  obtain k v where x: "x = (k, v)" by (cases x)
  from Cons.prems x have "k \<notin> fst ` set acc" by auto
  then have "map_set k v acc = acc @ [(k, v)]" by (rule map_set_append_new)
  with Cons x show ?case by simp
qed

lemma new_Map_distinct: "distinct (map fst xs) \<Longrightarrow> new_Map xs = xs"
  using foldl_map_set_distinct [of "[]" xs] by (simp add: new_Map_def)

lemma length_foldl_map_set:
  "length (foldl (\<lambda>m (k, v). map_set k v m) acc xs) \<le> length acc + length xs"
proof (induction xs arbitrary: acc)
  case Nil
  then show ?case by simp
next
  case (Cons x xs)
  obtain k v where x: "x = (k, v)" by (cases x)
  have "length (foldl (\<lambda>m (k, v). map_set k v m) (map_set k v acc) xs) \<le> length (map_set k v acc) + length xs"
    by (rule Cons.IH)
  also have "\<dots> \<le> Suc (length acc) + length xs"
    using length_map_set_le [of k v acc] by simp
  finally show ?case using x by simp
qed

lemma length_new_Map_le: "length (new_Map xs) \<le> length xs"
  using length_foldl_map_set [of "[]" xs] by (simp add: new_Map_def)

lemma length_slice_last: "length (slice_last n xs) \<le> n"
  by (simp add: slice_last_def)

lemma distinct_slice_last: "distinct (map fst xs) \<Longrightarrow> distinct (map fst (slice_last n xs))"
  by (simp add: slice_last_def drop_map [symmetric] distinct_drop)


lemma distinct_foldl_map_set:
  "distinct (map fst acc) \<Longrightarrow> distinct (map fst (foldl (\<lambda>m (k, v). map_set k v m) acc xs))"
proof (induction xs arbitrary: acc)
  case Nil
  then show ?case by simp
next
  case (Cons x xs)
  obtain k v where x: "x = (k, v)" by (cases x)
  from Cons.prems have "distinct (map fst (map_set k v acc))" by (rule distinct_map_set)
  then have "distinct (map fst (foldl (\<lambda>m (k, v). map_set k v m) (map_set k v acc) xs))"
    by (rule Cons.IH)
  with x show ?case by simp
qed

lemma distinct_new_Map: "distinct (map fst (new_Map xs))"
  using distinct_foldl_map_set [of "[]" xs] by (simp add: new_Map_def)

lemma distinct_loadMap:
  "distinct (map fst (messageSessionMap st)) \<Longrightarrow> distinct (map fst (messageSessionMap (loadMap st)))"
  by (simp add: loadMap_def Let_def distinct_new_Map split: map_file.splits)

lemma length_recordMessageSession:
  "length (messageSessionMap (recordMessageSession botMessageId grp st)) \<le> MAX_ENTRIES"
proof -
  let ?es = "map_set botMessageId grp (messageSessionMap (loadMap st))"
  have "length (new_Map (slice_last MAX_ENTRIES ?es)) \<le> length (slice_last MAX_ENTRIES ?es)"
    by (rule length_new_Map_le)
  also have "\<dots> \<le> MAX_ENTRIES" by (rule length_slice_last)
  finally show ?thesis by (simp add: recordMessageSession_def saveMap_def Let_def)
qed

text \<open>
  Claim C9.  Right after \<open>recordMessageSession\<close> has written an entry, the map in memory
  holds at most 500 entries and so does the file, whatever the map held before.  With
  \<open>es\<close> the entries in insertion order once the new one is set, the map (a JavaScript
  \<^verbatim>\<open>Map\<close>, so with one entry per key) is left holding the last 500 of \<open>es\<close>: what is
  dropped is dropped from the front, the oldest insertions, and the file holds the same
  entries.
\<close>

theorem reply_route_bounded_on_write:
  "(let st' = recordMessageSession botMessageId grp st;
        es = map_set botMessageId grp (messageSessionMap (loadMap st))
    in length (messageSessionMap st') \<le> 500 \<and>
       (\<exists>kept. map_file st' = Entries kept \<and> length kept \<le> 500) \<and>
       (distinct (map fst (messageSessionMap st)) \<longrightarrow>
          messageSessionMap st' = drop (length es - 500) es \<and>
          map_file st' = Entries (messageSessionMap st') \<and>
          suffix (messageSessionMap st') es))"
proof -
  let ?es = "map_set botMessageId grp (messageSessionMap (loadMap st))"
  let ?st' = "recordMessageSession botMessageId grp st"
  have bound: "length (messageSessionMap ?st') \<le> 500"
    using length_recordMessageSession [of botMessageId grp st] by (simp add: MAX_ENTRIES_def)
  have filed: "map_file ?st' = Entries (slice_last MAX_ENTRIES ?es)"
    by (simp add: recordMessageSession_def saveMap_def Let_def)
  have fbound: "length (slice_last MAX_ENTRIES ?es) \<le> 500"
    using length_slice_last [of MAX_ENTRIES ?es] by (simp add: MAX_ENTRIES_def)
  have "messageSessionMap ?st' = drop (length ?es - 500) ?es"
    if d: "distinct (map fst (messageSessionMap st))"
  proof -
    from d have "distinct (map fst (messageSessionMap (loadMap st)))" by (rule distinct_loadMap)
    then have "distinct (map fst ?es)" by (rule distinct_map_set)
    then have "distinct (map fst (slice_last MAX_ENTRIES ?es))" by (rule distinct_slice_last)
    then have "new_Map (slice_last MAX_ENTRIES ?es) = slice_last MAX_ENTRIES ?es"
      by (rule new_Map_distinct)
    then show ?thesis
      by (simp add: recordMessageSession_def saveMap_def Let_def slice_last_def MAX_ENTRIES_def)
  qed
  with bound filed fbound show ?thesis
    by (auto simp: Let_def slice_last_def MAX_ENTRIES_def suffix_drop)
qed


theorem reply_route_bounded_on_write_witness:
  "distinct (map fst (messageSessionMap full_routes)) \<and>
   length (messageSessionMap full_routes) = 500 \<and>
   length (messageSessionMap (recordMessageSession 500 ''secretary'' full_routes)) \<le> 500 \<and>
   messageSessionMap (recordMessageSession 500 ''secretary'' full_routes) =
     map (\<lambda>i. (int i, ''general'')) [1..<500] @ [(500, ''secretary'')] \<and>
   map_file (recordMessageSession 500 ''secretary'' full_routes) =
     Entries (messageSessionMap (recordMessageSession 500 ''secretary'' full_routes))"
proof -
  have d: "distinct (map fst (messageSessionMap full_routes))"
    by (simp add: full_routes_def distinct_map inj_on_def comp_def)
  have l: "length (messageSessionMap full_routes) = 500"
    by (simp add: full_routes_def)
  have ld: "loadMap full_routes = full_routes"
    by (simp add: loadMap_def full_routes_def)
  have "(500::int) \<notin> fst ` set (messageSessionMap full_routes)"
    by (auto simp: full_routes_def)
  then have es: "map_set 500 ''secretary'' (messageSessionMap full_routes) =
      messageSessionMap full_routes @ [(500, ''secretary'')]"
    by (rule map_set_append_new)
  have dr: "drop (Suc 0) (map (\<lambda>i. (int i, ''general'')) [0..<500]) =
      map (\<lambda>i. (int i, ''general'')) [Suc 0..<500]"
    by (simp add: drop_map)
  from reply_route_bounded_on_write [of 500 "''secretary''" full_routes] d l
  show ?thesis
    by (simp add: Let_def ld es dr) (simp add: full_routes_def dr)
qed

section \<open>The classifier always answers\<close>

text \<open>
  Claim C8.  \<open>classifyMessage\<close> is a total function: whatever the message, the child
  process and the parser do, it returns a result, and the category of the result is
  \<^verbatim>\<open>secretary\<close> or \<^verbatim>\<open>general\<close>.  It is \<^verbatim>\<open>secretary\<close> exactly when the child ended
  with exit code 0, its output parsed, the result printed and matched the pattern, the
  match parsed, and the \<^verbatim>\<open>category\<close> of the parsed match is the string \<^verbatim>\<open>secretary\<close>.
  In particular a spawn that throws, a non-zero exit code and an output that does not parse
  each give \<^verbatim>\<open>general\<close>.
\<close>

theorem classifyMessage_total_with_default:
  "(let r = classifyMessage parse spawn head tail text;
        args = classifier_args (buildClassifierPrompt head tail text)
    in (category r = ''secretary'' \<or> category r = ''general'') \<and>
       (category r = ''secretary'' \<longleftrightarrow>
          (\<exists>out parsed res shown m c.
              spawn args = Exited out (Some 0) \<and>
              parse out = Some parsed \<and>
              get_prop parsed ''result'' = Inr res \<and>
              js_String (nullish res (JStr out)) = Inr shown \<and>
              match_category shown = Some m \<and>
              parse m = Some c \<and>
              get_prop c ''category'' = Inr (JStr ''secretary''))) \<and>
       (spawn args = SpawnThrows \<longrightarrow> category r = ''general'') \<and>
       (\<forall>out code. spawn args = Exited out code \<and> code \<noteq> Some 0 \<longrightarrow> category r = ''general'') \<and>
       (\<forall>out code. spawn args = Exited out code \<and> parse out = None \<longrightarrow> category r = ''general''))"
  by (auto simp: classifyMessage_def Let_def
           split: spawn_result.splits option.splits sum.splits if_splits)

theorem classifyMessage_total_with_default_witness:
  "category (classifyMessage example_parse (\<lambda>args. Exited ''envelope'' (Some 0)) ''h'' ''t'' ''sec status?'')
     = ''secretary'' \<and>
   category (classifyMessage example_parse (\<lambda>args. SpawnThrows) ''h'' ''t'' ''sec status?'') = ''general'' \<and>
   category (classifyMessage example_parse (\<lambda>args. Exited ''envelope'' (Some 1)) ''h'' ''t'' ''sec status?'')
     = ''general'' \<and>
   category (classifyMessage example_parse (\<lambda>args. Exited ''garbage'' (Some 0)) ''h'' ''t'' ''sec status?'')
     = ''general''"
proof -
  have m: "match_category (''Sure: '' @ example_answer) = Some example_answer"
    by (simp add: match_category_def example_answer_def str_includes_def)
  have a: "example_answer \<noteq> ''envelope''"
    by (simp add: example_answer_def)
  have s: "category (classifyMessage example_parse (\<lambda>args. Exited ''envelope'' (Some 0)) ''h'' ''t'' ''sec status?'')
     = ''secretary''"
    using classifyMessage_total_with_default
      [of example_parse "\<lambda>args. Exited ''envelope'' (Some 0)" "''h''" "''t''" "''sec status?''"] m a
    by (simp add: Let_def example_parse_def)
  have "example_parse ''garbage'' = None"
    by (simp add: example_parse_def example_answer_def)
  with s
    classifyMessage_total_with_default
      [of example_parse "\<lambda>args. SpawnThrows" "''h''" "''t''" "''sec status?''"]
    classifyMessage_total_with_default
      [of example_parse "\<lambda>args. Exited ''envelope'' (Some 1)" "''h''" "''t''" "''sec status?''"]
    classifyMessage_total_with_default
      [of example_parse "\<lambda>args. Exited ''garbage'' (Some 0)" "''h''" "''t''" "''sec status?''"]
  show ?thesis
    by (simp add: Let_def)
qed

section \<open>What the estimator returns\<close>

lemma round_chars_code: "round_chars n = (20 * int n + 37) div 74"
proof -
  have "real n / 3.7 + 1 / 2 = real_of_int (20 * int n + 37) / real_of_int 74"
    by (simp add: field_simps)
  then show ?thesis
    unfolding round_chars_def by (simp only: floor_divide_of_int_eq)
qed


declare round_chars_code [code]

lemma estimate_without_transcript:
  "findTranscriptPath fs sid = None \<Longrightarrow> estimateSessionTokens parse fs sid = Returns (Fin 0)"
  by (simp add: estimateSessionTokens_def)

lemma count_line_skips_unparseable: "parse line = None \<Longrightarrow> count_line parse t line = t"
  by (simp add: count_line_def)

lemma count_line_skips_blank: "trim line = [] \<Longrightarrow> count_line parse t line = t"
  by (simp add: count_line_def)

lemma estimate_scenario_C:
  "estimateSessionTokens example_json
     (one_transcript (''m100'' @ nl @ ''m170'' @ nl @ ''{oops'' @ nl @ ''r100'' @ nl)) ''s''
   = Returns (Fin 100)"
  by code_simp

text \<open>
  Claim C6, at an input where it fails.  The transcript of session \<open>s\<close> has one line, which
  parses: a message with one content block whose \<^verbatim>\<open>text\<close> is the number 5.  The block's
  text is truthy, its \<^verbatim>\<open>length\<close> is \<^verbatim>\<open>undefined\<close>, the sum becomes \<^verbatim>\<open>NaN\<close> and the
  estimator returns \<^verbatim>\<open>NaN\<close>, where the claim promises an integer.  On the transcript of
  the scenario (three lines with 370 characters and a line that does not parse) it returns
  100.
\<close>

theorem estimate_NaN_on_numeric_text:
  "estimateSessionTokens example_json (one_transcript (''text5'' @ nl)) ''s'' = Returns NaN \<and>
   estimateSessionTokens example_json
     (one_transcript (''m100'' @ nl @ ''m170'' @ nl @ ''{oops'' @ nl @ ''r100'' @ nl)) ''s''
     = Returns (Fin 100)"
  by code_simp

text \<open>
  Claim C7, at an input where it fails.  A result whose content is one block with a
  \<^verbatim>\<open>content\<close> of 37 characters adds nothing to the sum, and the estimate is 0; the same
  block in a message adds its 37 characters, and the estimate is 10.  The loop over a
  result's blocks never reads \<^verbatim>\<open>block.content\<close>: a block that has only a content leaves
  the sum as it was, whatever the content.
\<close>

theorem result_blocks_leave_content_out:
  "estimateSessionTokens example_json (one_transcript (''rblock'' @ nl)) ''s'' = Returns (Fin 0) \<and>
   estimateSessionTokens example_json (one_transcript (''mblock'' @ nl)) ''s'' = Returns (Fin 10) \<and>
   result_blocks [JObj [(''content'', c)]] t = (t, False) \<and>
   message_blocks [JObj [(''content'', JStr (x # xs))]] (Count n) = (Count (n + length (x # xs)), False)"
proof -
  have "estimateSessionTokens example_json (one_transcript (''rblock'' @ nl)) ''s'' = Returns (Fin 0)"
    by code_simp
  moreover
  have "estimateSessionTokens example_json (one_transcript (''mblock'' @ nl)) ''s'' = Returns (Fin 10)"
    by code_simp
  ultimately show ?thesis by simp
qed

section \<open>The estimate on records of the expected shape\<close>

lemma add_length_of_Count:
  "(case tx of JStr s \<Rightarrow> True | JArr xs \<Rightarrow> True | _ \<Rightarrow> False) \<Longrightarrow> \<exists>m. add_length_of (Count n) tx = Count m"
  by (cases tx) simp_all

lemma message_blocks_Count:
  "\<forall>b \<in> set blocks. text_ok b \<Longrightarrow> \<exists>m. fst (message_blocks blocks (Count n)) = Count m"
proof (induction blocks arbitrary: n)
  case Nil
  then show ?case by simp
next
  case (Cons b blocks)
  from Cons.prems have ok: "text_ok b" and rest: "\<forall>b \<in> set blocks. text_ok b" by simp_all
  show ?case
  proof (cases "get_prop b ''text''")
    case (Inl e)
    then show ?thesis by simp
  next
    case (Inr tx)
    with ok have "\<not> truthy tx \<or> (case tx of JStr s \<Rightarrow> True | JArr xs \<Rightarrow> True | _ \<Rightarrow> False)"
      by (simp add: text_ok_def)
    then have "\<exists>n1. (if truthy tx then add_length_of (Count n) tx else Count n) = Count n1"
      using add_length_of_Count [of tx n] by (cases "truthy tx") auto
    then obtain n1 where n1: "(if truthy tx then add_length_of (Count n) tx else Count n) = Count n1"
      by blast
    from Cons.IH [OF rest] have ih: "\<And>k. \<exists>m. fst (message_blocks blocks (Count k)) = Count m" .
    from Inr n1 ih [of n1] ih [of "n1 + length s" for s] show ?thesis
      by (auto simp: Let_def split: sum.splits)
  qed
qed

lemma result_blocks_Count:
  "\<forall>b \<in> set blocks. text_ok b \<Longrightarrow> \<exists>m. fst (result_blocks blocks (Count n)) = Count m"
proof (induction blocks arbitrary: n)
  case Nil
  then show ?case by simp
next
  case (Cons b blocks)
  from Cons.prems have ok: "text_ok b" and rest: "\<forall>b \<in> set blocks. text_ok b" by simp_all
  show ?case
  proof (cases "get_prop b ''text''")
    case (Inl e)
    then show ?thesis by simp
  next
    case (Inr tx)
    with ok have "\<not> truthy tx \<or> (case tx of JStr s \<Rightarrow> True | JArr xs \<Rightarrow> True | _ \<Rightarrow> False)"
      by (simp add: text_ok_def)
    then have "\<exists>n1. (if truthy tx then add_length_of (Count n) tx else Count n) = Count n1"
      using add_length_of_Count [of tx n] by (cases "truthy tx") auto
    then obtain n1 where n1: "(if truthy tx then add_length_of (Count n) tx else Count n) = Count n1"
      by blast
    from Cons.IH [OF rest, of n1] Inr n1 show ?thesis by simp
  qed
qed

lemma get_prop_as_opt: "get_prop obj name = Inr v \<Longrightarrow> get_prop_opt obj name = v"
  by (cases obj) (auto split: option.splits)

lemma count_message_Count:
  assumes "blocks_ok (get_prop_opt (get_prop_opt obj ''message'') ''content'')"
  shows "\<exists>m. fst (count_message obj (Count n)) = Count m"
proof (cases "get_prop obj ''message''")
  case (Inl e)
  then show ?thesis by (simp add: count_message_def)
next
  case (Inr msg)
  then have m: "get_prop_opt obj ''message'' = msg" by (rule get_prop_as_opt)
  show ?thesis
  proof (cases "get_prop_opt msg ''content''")
    case (JArr blocks)
    with assms m have "\<forall>b \<in> set blocks. text_ok b" by (simp add: blocks_ok_def)
    from message_blocks_Count [OF this, of n] Inr JArr show ?thesis
      by (simp add: count_message_def)
  qed (simp_all add: count_message_def Inr)
qed

lemma count_result_Count:
  assumes "blocks_ok (get_prop_opt (get_prop_opt obj ''result'') ''content'')"
  shows "\<exists>m. fst (count_result obj (Count n)) = Count m"
proof (cases "get_prop_opt (get_prop_opt obj ''result'') ''content''")
  case (JArr blocks)
  with assms have "\<forall>b \<in> set blocks. text_ok b" by (simp add: blocks_ok_def)
  from result_blocks_Count [OF this, of n] JArr show ?thesis
    by (simp add: count_result_def)
qed (simp_all add: count_result_def)

lemma count_line_Count:
  assumes "\<And>obj. parse line = Some obj \<Longrightarrow> record_ok obj"
  shows "\<exists>m. count_line parse (Count n) line = Count m"
proof (cases "parse line")
  case None
  then show ?thesis by (simp add: count_line_def)
next
  case (Some obj)
  with assms have ok: "record_ok obj" by simp
  then obtain n1 where n1: "fst (count_message obj (Count n)) = Count n1"
    using count_message_Count [of obj n] by (auto simp: record_ok_def)
  from ok obtain n2 where n2: "fst (count_result obj (Count n1)) = Count n2"
    using count_result_Count [of obj n1] by (auto simp: record_ok_def)
  from Some n1 n2 show ?thesis
    by (cases "snd (count_message obj (Count n))") (simp_all add: count_line_def case_prod_unfold Let_def)
qed

lemma foldl_count_line_Count:
  "(\<And>line obj. line \<in> set lines \<Longrightarrow> parse line = Some obj \<Longrightarrow> record_ok obj) \<Longrightarrow>
   \<exists>m. foldl (count_line parse) (Count n) lines = Count m"
proof (induction lines arbitrary: n)
  case Nil
  then show ?case by simp
next
  case (Cons line lines)
  from Cons.prems obtain n1 where n1: "count_line parse (Count n) line = Count n1"
    using count_line_Count [of parse line n] by auto
  from Cons.prems have "\<exists>m. foldl (count_line parse) (Count n1) lines = Count m"
    by (intro Cons.IH) auto
  with n1 show ?case by simp
qed

text \<open>
  On a transcript whose parsed lines are of the expected shape the estimate is an integer
  and is not negative; lines that do not parse put no condition on it.
\<close>

lemma estimate_integer_on_expected_records:
  assumes "\<And>dir name line obj.
             findTranscriptPath fs sid = Some (dir, name) \<Longrightarrow>
             line \<in> set (split_lines (text_at fs dir name)) \<Longrightarrow>
             parse line = Some obj \<Longrightarrow> record_ok obj"
  shows "\<exists>k \<ge> 0. estimateSessionTokens parse fs sid = Returns (Fin k)"
proof (cases "findTranscriptPath fs sid")
  case None
  then show ?thesis by (simp add: estimateSessionTokens_def)
next
  case (Some path)
  obtain dir name where path: "path = (dir, name)" by (cases path)
  from assms Some path
  obtain m where "foldl (count_line parse) (Count 0) (split_lines (text_at fs dir name)) = Count m"
    using foldl_count_line_Count [of "split_lines (text_at fs dir name)" parse 0] by blast
  moreover have "0 \<le> round_chars m" by (simp add: round_chars_code)
  ultimately show ?thesis using Some path by (simp add: estimateSessionTokens_def)
qed

section \<open>Rotation happens at the threshold\<close>

lemma findIndex_cong_map:
  "map f xs = map f ys \<Longrightarrow> findIndex (\<lambda>s. f s = g) xs = findIndex (\<lambda>s. f s = g) ys"
proof (induction xs arbitrary: ys)
  case Nil
  then show ?case by simp
next
  case (Cons x xs)
  then obtain y ys' where ys: "ys = y # ys'" by (cases ys) auto
  with Cons.prems have "f x = f y" "map f xs = map f ys'" by auto
  with Cons.IH ys show ?case by simp
qed

lemma groups_after_get:
  "map group (current (snd (getSessionForGroup now grp st))) = map group (current st)"
  by (auto simp: current_get map_update split: option.splits dest!: findIndex_Some
           intro!: nth_equalityI simp: nth_list_update)

lemma groups_after_update:
  "map group (current (updateTokenCount grp tokens st)) = map group (current st)"
  by (auto simp: current_update map_update split: option.splits dest!: findIndex_Some
           intro!: nth_equalityI simp: nth_list_update)

lemma archiveGroup_neq: "archiveGroup grp now_ms \<noteq> grp"
  by (simp add: archiveGroup_def)


lemma findIndex_after_get:
  "findIndex (\<lambda>s. group s = g) (current (snd (getSessionForGroup now grp st))) =
   findIndex (\<lambda>s. group s = g) (current st)"
  by (rule findIndex_cong_map) (rule groups_after_get)

lemma findIndex_after_update:
  "findIndex (\<lambda>s. group s = g) (current (updateTokenCount grp tokens st)) =
   findIndex (\<lambda>s. group s = g) (current st)"
  by (rule findIndex_cong_map) (rule groups_after_update)

lemma length_current_get [simp]:
  "length (current (snd (getSessionForGroup now grp st))) = length (current st)"
  using arg_cong [OF groups_after_get, of length now grp st] by simp

lemma length_current_update [simp]:
  "length (current (updateTokenCount grp tokens st)) = length (current st)"
  using arg_cong [OF groups_after_update, of length grp tokens st] by simp

lemma checkAndRotate_no_entry:
  assumes "fst (getSessionForGroup now grp st) = None"
  shows "checkAndRotate est ts now now_ms grp st = (None, snd (getSessionForGroup now grp st))"
    and "current (snd (checkAndRotate est ts now now_ms grp st)) = current st"
proof -
  from assms show 1: "checkAndRotate est ts now now_ms grp st = (None, snd (getSessionForGroup now grp st))"
    by (cases "getSessionForGroup now grp st") (simp add: checkAndRotate_def)
  from assms have "findIndex (\<lambda>s. group s = grp) (current st) = None"
    by (simp add: fst_get split: option.splits)
  then show "current (snd (checkAndRotate est ts now now_ms grp st)) = current st"
    by (simp add: 1 current_get)
qed

lemma checkAndRotate_entry:
  assumes e: "fst (getSessionForGroup now grp st) = Some e"
    and t: "est (sessionId e) = Inr tokens"
  shows "checkAndRotate est ts now now_ms grp st =
     (None,
      let st2 = updateTokenCount grp tokens (snd (getSessionForGroup now grp st)) in
      if js_less tokens (case ts of Some t \<Rightarrow> t | None \<Rightarrow> DEFAULT_ROTATION_THRESHOLD) then st2
      else snd (rotateSession now_ms grp
                  (Some (''Auto-rotated at '' @ show_number tokens @ '' tokens'')) st2))"
  using e t by (cases "getSessionForGroup now grp st") (simp add: checkAndRotate_def Let_def)


lemma entry_after_check:
  fixes now tokens
  assumes i: "findIndex (\<lambda>s. group s = grp) (current st) = Some i"
  defines "st2 \<equiv> updateTokenCount grp tokens (snd (getSessionForGroup now grp st))"
  shows "current st2 = (current st)[i := (current st ! i)\<lparr>lastUsedAt := now, contentTokens := tokens\<rparr>]"
    and "findIndex (\<lambda>s. group s = grp) (current st2) = Some i"
proof -
  from i have il: "i < length (current st)" by (simp add: findIndex_Some)
  have 1: "current (snd (getSessionForGroup now grp st)) =
             (current st)[i := (current st ! i)\<lparr>lastUsedAt := now\<rparr>]"
    using i by (simp add: current_get)
  have 2: "findIndex (\<lambda>s. group s = grp) (current (snd (getSessionForGroup now grp st))) = Some i"
    using i by (simp add: findIndex_after_get)
  show "current st2 = (current st)[i := (current st ! i)\<lparr>lastUsedAt := now, contentTokens := tokens\<rparr>]"
    unfolding st2_def using 2 il by (simp add: current_update 1)
  show "findIndex (\<lambda>s. group s = grp) (current st2) = Some i"
    unfolding st2_def using 2 by (simp add: findIndex_after_update)
qed

text \<open>
  An estimate that is \<^verbatim>\<open>NaN\<close> is not below any threshold for the comparison the source
  makes, so the entry is archived.
\<close>

lemma checkAndRotate_NaN:
  assumes e: "fst (getSessionForGroup now grp st) = Some e"
    and t: "est (sessionId e) = Inr NaN"
  shows "checkAndRotate est ts now now_ms grp st =
     (None, snd (rotateSession now_ms grp (Some ''Auto-rotated at NaN tokens'')
                   (updateTokenCount grp NaN (snd (getSessionForGroup now grp st)))))"
  using checkAndRotate_entry [where est=est and tokens=NaN and ts=ts and now_ms=now_ms, OF e t]
  by (simp add: Let_def)

text \<open>
  When the group has no entry, \<open>checkAndRotate\<close> returns with the registry as
  it was.  When it has one, at index \<open>i\<close>, and the estimate for the entry's session id is
  the integer \<open>n\<close>, then with the threshold that is set, or 120000 when none is set: the
  entry is archived (its group becomes the archival name) exactly when \<open>n\<close> is at or above
  the threshold, and it keeps its group exactly when \<open>n\<close> is below, in which case no group
  name in the registry changes.  Either way the entry's token count has become \<open>n\<close>.
\<close>

lemma checkAndRotate_integer_estimate:
  "(let (err, st') = checkAndRotate est threshold_setting now now_ms grp st;
        threshold = (case threshold_setting of Some t \<Rightarrow> t | None \<Rightarrow> 120000)
    in (fst (getSessionForGroup now grp st) = None \<longrightarrow> err = None \<and> current st' = current st) \<and>
       (\<forall>e n i. fst (getSessionForGroup now grp st) = Some e \<and>
                est (sessionId e) = Inr (Fin n) \<and>
                findIndex (\<lambda>s. group s = grp) (current st) = Some i \<longrightarrow>
          err = None \<and>
          (group (current st' ! i) = archiveGroup grp now_ms \<longleftrightarrow> threshold \<le> real_of_int n) \<and>
          (group (current st' ! i) = grp \<longleftrightarrow> real_of_int n < threshold) \<and>
          (real_of_int n < threshold \<longrightarrow> map group (current st') = map group (current st)) \<and>
          (threshold \<le> real_of_int n \<longrightarrow>
             summary (current st' ! i) = Some (''Auto-rotated at '' @ show_int n @ '' tokens'')) \<and>
          sessionId (current st' ! i) = sessionId e \<and>
          contentTokens (current st' ! i) = Fin n))"
proof -
  let ?th = "case threshold_setting of Some t \<Rightarrow> t | None \<Rightarrow> (120000::real)"
  let ?c = "checkAndRotate est threshold_setting now now_ms grp st"
  have none: "fst (getSessionForGroup now grp st) = None \<longrightarrow> fst ?c = None \<and> current (snd ?c) = current st"
    using checkAndRotate_no_entry [of now grp st est threshold_setting now_ms] by simp
  have some: "fst ?c = None \<and>
          (group (current (snd ?c) ! i) = archiveGroup grp now_ms \<longleftrightarrow> ?th \<le> real_of_int n) \<and>
          (group (current (snd ?c) ! i) = grp \<longleftrightarrow> real_of_int n < ?th) \<and>
          (real_of_int n < ?th \<longrightarrow> map group (current (snd ?c)) = map group (current st)) \<and>
          (?th \<le> real_of_int n \<longrightarrow>
             summary (current (snd ?c) ! i) = Some (''Auto-rotated at '' @ show_int n @ '' tokens'')) \<and>
          sessionId (current (snd ?c) ! i) = sessionId e \<and>
          contentTokens (current (snd ?c) ! i) = Fin n"
    if e: "fst (getSessionForGroup now grp st) = Some e"
      and t: "est (sessionId e) = Inr (Fin n)"
      and i: "findIndex (\<lambda>s. group s = grp) (current st) = Some i"
    for e n i
  proof -
    let ?st2 = "updateTokenCount grp (Fin n) (snd (getSessionForGroup now grp st))"
    let ?msg = "''Auto-rotated at '' @ show_int n @ '' tokens''"
    from i have il: "i < length (current st)" and ig: "group (current st ! i) = grp"
      by (auto dest: findIndex_Some)
    from e i have ee: "e = (current st ! i)\<lparr>lastUsedAt := now\<rparr>"
      by (simp add: fst_get)
    have c2: "current ?st2 = (current st)[i := (current st ! i)\<lparr>lastUsedAt := now, contentTokens := Fin n\<rparr>]"
      and f2: "findIndex (\<lambda>s. group s = grp) (current ?st2) = Some i"
      using entry_after_check [OF i, of "Fin n" now] by simp_all
    have th: "(case threshold_setting of Some t \<Rightarrow> t | None \<Rightarrow> DEFAULT_ROTATION_THRESHOLD) = ?th"
      by (cases threshold_setting) (simp_all add: DEFAULT_ROTATION_THRESHOLD_def)
    show ?thesis
    proof (cases "real_of_int n < ?th")
      case True
      then have c: "?c = (None, ?st2)"
        using checkAndRotate_entry [where est=est and tokens="Fin n" and ts=threshold_setting and now_ms=now_ms, OF e t] th
        by (simp add: Let_def)
      have "map group (current ?st2) = map group (current st)"
        by (simp add: groups_after_update groups_after_get)
      with True c c2 il ig ee show ?thesis
        by (simp add: archiveGroup_neq [symmetric])
    next
      case False
      then have c: "?c = (None, snd (rotateSession now_ms grp (Some ?msg) ?st2))"
        using checkAndRotate_entry [where est=est and tokens="Fin n" and ts=threshold_setting and now_ms=now_ms, OF e t] th
        by (simp add: Let_def)
      have "current (snd (rotateSession now_ms grp (Some ?msg) ?st2)) =
              (current ?st2)[i := archived_entry now_ms grp (Some ?msg) (current ?st2 ! i)]"
        using f2 by (simp add: current_rotate)
      with False c c2 il ig ee show ?thesis
        by (simp add: archiveGroup_neq archived_entry_def show_nat.simps [of "nat n"] show_int_def)
    qed
  qed
  from none some show ?thesis
    by (simp add: case_prod_unfold Let_def)
qed


lemma checkAndRotate_integer_estimate_examples:
  "fst (getSessionForGroup ''t1'' ''ops'' example_store) =
     Some \<lparr>sessionId = JStr ''s1'', group = ''ops'', createdAt = ''t0'', lastUsedAt = ''t1'',
            contentTokens = Fin 5, summary = None\<rparr> \<and>
   findIndex (\<lambda>s. group s = ''ops'') (current example_store) = Some 0 \<and>
   group (current (snd (checkAndRotate (\<lambda>sid. Inr (Fin 130000)) None ''t1'' 42 ''ops'' example_store)) ! 0)
     = ''ops__archived_42'' \<and>
   group (current (snd (checkAndRotate (\<lambda>sid. Inr (Fin 120000)) None ''t1'' 42 ''ops'' example_store)) ! 0)
     = ''ops__archived_42'' \<and>
   group (current (snd (checkAndRotate (\<lambda>sid. Inr (Fin 119999)) None ''t1'' 42 ''ops'' example_store)) ! 0)
     = ''ops'' \<and>
   group (current (snd (checkAndRotate (\<lambda>sid. Inr (Fin 130000)) (Some 200000) ''t1'' 42 ''ops'' example_store)) ! 0)
     = ''ops'' \<and>
   fst (getSessionForGroup ''t1'' ''nobody'' example_store) = None \<and>
   current (snd (checkAndRotate (\<lambda>sid. Inr (Fin 130000)) None ''t1'' 42 ''nobody'' example_store)) = current example_store"
proof -
  have g: "fst (getSessionForGroup ''t1'' ''ops'' example_store) =
     Some \<lparr>sessionId = JStr ''s1'', group = ''ops'', createdAt = ''t0'', lastUsedAt = ''t1'',
            contentTokens = Fin 5, summary = None\<rparr>"
    by code_simp
  have f: "findIndex (\<lambda>s. group s = ''ops'') (current example_store) = Some 0"
    by code_simp
  have n: "fst (getSessionForGroup ''t1'' ''nobody'' example_store) = None"
    by code_simp
  have a: "archiveGroup ''ops'' 42 = ''ops__archived_42''"
    by code_simp
  from g f n a
    checkAndRotate_integer_estimate [of "\<lambda>sid. Inr (Fin 130000)" None "''t1''" 42 "''ops''" example_store]
    checkAndRotate_integer_estimate [of "\<lambda>sid. Inr (Fin 120000)" None "''t1''" 42 "''ops''" example_store]
    checkAndRotate_integer_estimate [of "\<lambda>sid. Inr (Fin 119999)" None "''t1''" 42 "''ops''" example_store]
    checkAndRotate_integer_estimate [of "\<lambda>sid. Inr (Fin 130000)" "Some 200000" "''t1''" 42 "''ops''" example_store]
    checkAndRotate_integer_estimate [of "\<lambda>sid. Inr (Fin 130000)" None "''t1''" 42 "''nobody''" example_store]
  show ?thesis
    by (simp add: case_prod_unfold Let_def)
qed

text \<open>
  Claim C3, at an input where it fails.  The group \<open>ops\<close> has a live entry, for the
  session \<open>s\<close>, and the transcript of \<open>s\<close> is the one line whose block has the number 5
  as its text.  The estimate computed for the session is \<^verbatim>\<open>NaN\<close>, which is not at or
  above any threshold.  With that estimate \<open>checkAndRotate\<close> stores \<^verbatim>\<open>NaN\<close> as the token
  count, finds \<^verbatim>\<open>tokens < threshold\<close> false and archives the entry, with a summary that
  says so.  On the transcript of 370 characters the estimate is 100 and the entry stays
  where it is.
\<close>

theorem checkAndRotate_archives_on_NaN:
  "fst (getSessionForGroup ''t1'' ''ops'' session_s_store) =
     Some \<lparr>sessionId = JStr ''s'', group = ''ops'', createdAt = ''t0'', lastUsedAt = ''t1'',
            contentTokens = Fin 5, summary = None\<rparr> \<and>
   (case estimateSessionTokens example_json (one_transcript (''text5'' @ nl)) ''s'' of
      Undetermined \<Rightarrow> False
    | Returns tokens \<Rightarrow>
        tokens = NaN \<and>
        (let (err, st') = checkAndRotate (\<lambda>sid. Inr tokens) None ''t1'' 42 ''ops'' session_s_store
         in err = None \<and>
            current st' =
              [\<lparr>sessionId = JStr ''s'', group = ''ops__archived_42'', createdAt = ''t0'',
                lastUsedAt = ''t1'', contentTokens = NaN,
                summary = Some ''Auto-rotated at NaN tokens''\<rparr>])) \<and>
   (case estimateSessionTokens example_json
           (one_transcript (''m100'' @ nl @ ''m170'' @ nl @ ''{oops'' @ nl @ ''r100'' @ nl)) ''s'' of
      Undetermined \<Rightarrow> False
    | Returns tokens \<Rightarrow>
        tokens = Fin 100 \<and>
        (let (err, st') = checkAndRotate (\<lambda>sid. Inr tokens) None ''t1'' 42 ''ops'' session_s_store
         in err = None \<and>
            current st' =
              [\<lparr>sessionId = JStr ''s'', group = ''ops'', createdAt = ''t0'',
                lastUsedAt = ''t1'', contentTokens = Fin 100, summary = None\<rparr>]))"
proof -
  have e: "fst (getSessionForGroup ''t1'' ''ops'' session_s_store) =
     Some \<lparr>sessionId = JStr ''s'', group = ''ops'', createdAt = ''t0'', lastUsedAt = ''t1'',
            contentTokens = Fin 5, summary = None\<rparr>"
    by code_simp
  have n: "estimateSessionTokens example_json (one_transcript (''text5'' @ nl)) ''s'' = Returns NaN"
    by code_simp
  have c: "estimateSessionTokens example_json
             (one_transcript (''m100'' @ nl @ ''m170'' @ nl @ ''{oops'' @ nl @ ''r100'' @ nl)) ''s''
           = Returns (Fin 100)"
    by code_simp
  have a: "(let (err, st') = checkAndRotate (\<lambda>sid. Inr NaN) None ''t1'' 42 ''ops'' session_s_store
         in err = None \<and>
            current st' =
              [\<lparr>sessionId = JStr ''s'', group = ''ops__archived_42'', createdAt = ''t0'',
                lastUsedAt = ''t1'', contentTokens = NaN,
                summary = Some ''Auto-rotated at NaN tokens''\<rparr>])"
    by code_simp
  have b: "(let (err, st') = checkAndRotate (\<lambda>sid. Inr (Fin 100)) None ''t1'' 42 ''ops'' session_s_store
         in err = None \<and>
            current st' =
              [\<lparr>sessionId = JStr ''s'', group = ''ops'', createdAt = ''t0'',
                lastUsedAt = ''t1'', contentTokens = Fin 100, summary = None\<rparr>])"
    by code_simp
  from e a b show ?thesis
    by (simp only: n c estimate.case simp_thms)
qed


section \<open>Detecting the rate-limit message\<close>

lemma sublist_dropWhile_front:
  assumes "\<And>c. sp c \<Longrightarrow> f c \<noteq> p"
  shows "sublist (p # ps) (map f (dropWhile sp s)) = sublist (p # ps) (map f s)"
proof (induction s)
  case Nil
  then show ?case by simp
next
  case (Cons c s)
  show ?case
  proof (cases "sp c")
    case True
    with assms have "f c \<noteq> p" by simp
    with True Cons show ?thesis by (auto simp: sublist_Cons_right)
  next
    case False
    then show ?thesis by simp
  qed
qed

lemma sublist_trim:
  assumes f: "\<And>c. is_space c \<Longrightarrow> f c \<noteq> p" and l: "\<And>c. is_space c \<Longrightarrow> f c \<noteq> z"
  shows "sublist (p # ps @ [z]) (map f (trim s)) = sublist (p # ps @ [z]) (map f s)"
proof -
  let ?pat = "p # ps @ [z]"
  have "sublist ?pat (map f (trim s)) = sublist (rev ?pat) (rev (map f (trim s)))"
    by (simp only: sublist_rev)
  also have "rev (map f (trim s)) = map f (dropWhile is_space (rev (dropWhile is_space s)))"
    by (simp add: trim_def rev_map)
  also have "sublist (rev ?pat) (map f (dropWhile is_space (rev (dropWhile is_space s)))) =
             sublist (rev ?pat) (map f (rev (dropWhile is_space s)))"
    using sublist_dropWhile_front [of is_space f z "rev ps @ [p]" "rev (dropWhile is_space s)"] l
    by simp
  also have "\<dots> = sublist ?pat (map f (dropWhile is_space s))"
    using sublist_rev [of ?pat "map f (dropWhile is_space s)"] by (simp add: rev_map)
  also have "\<dots> = sublist ?pat (map f s)"
    using f by (rule sublist_dropWhile_front)
  finally show ?thesis .
qed

lemma ascii_lower_space: "is_space c \<Longrightarrow> ascii_lower c = c"
  by (auto simp: is_space_def ascii_lower_def)

lemma RATE_LIMIT_PATTERN_test_trim: "RATE_LIMIT_PATTERN_test (trim s) = RATE_LIMIT_PATTERN_test s"
proof -
  have "sublist (CHR ''y'' # (''ou'' @ [CHR 0x27] @ ''ve hit your limi'') @ [CHR ''t'']) (map ascii_lower (trim s)) =
        sublist (CHR ''y'' # (''ou'' @ [CHR 0x27] @ ''ve hit your limi'') @ [CHR ''t'']) (map ascii_lower s)"
    by (rule sublist_trim) (auto simp: ascii_lower_space is_space_def)
  then show ?thesis
    by (simp add: RATE_LIMIT_PATTERN_test_def str_includes_def)
qed

lemma RATE_LIMIT_PATTERN_test_nonempty: "RATE_LIMIT_PATTERN_test s \<Longrightarrow> s \<noteq> []"
  by (auto simp: RATE_LIMIT_PATTERN_test_def str_includes_def)

text \<open>
  \<open>extractRateLimitMessage\<close> finds a message exactly when the pattern matches the
  output or the diagnostic output: trimming cannot cut into a match.
\<close>

lemma extractRateLimitMessage_iff:
  "extractRateLimitMessage out err \<noteq> None \<longleftrightarrow>
     RATE_LIMIT_PATTERN_test out \<or> RATE_LIMIT_PATTERN_test err"
  using RATE_LIMIT_PATTERN_test_nonempty [of "trim out"] RATE_LIMIT_PATTERN_test_nonempty [of "trim err"]
  by (auto simp: extractRateLimitMessage_def RATE_LIMIT_PATTERN_test_trim)

text \<open>
  The message found is the trimmed output when the pattern matches the output, and the
  trimmed diagnostic output when it matches only that.
\<close>

lemma extractRateLimitMessage_eq:
  "extractRateLimitMessage out err =
     (if RATE_LIMIT_PATTERN_test out then Some (trim out)
      else if RATE_LIMIT_PATTERN_test err then Some (trim err) else None)"
  using RATE_LIMIT_PATTERN_test_nonempty [of "trim out"] RATE_LIMIT_PATTERN_test_nonempty [of "trim err"]
  by (auto simp: extractRateLimitMessage_def RATE_LIMIT_PATTERN_test_trim)

lemma extractRateLimitMessage_matches:
  "extractRateLimitMessage out err = Some m \<Longrightarrow> RATE_LIMIT_PATTERN_test m"
  by (auto simp: extractRateLimitMessage_def split: if_splits)

section \<open>What the executor does with the child's output\<close>

lemma find_existing_no_entry:
  assumes g: "sessionGroup options = Some g" "g \<noteq> []" "\<not> noSessionPersistence options"
    and n: "findIndex (\<lambda>s. group s = g) (current st) = None"
  shows "\<exists>st1. find_existing env options st = (Inr None, st1) \<and> current st1 = current st"
proof -
  let ?st0 = "snd (getSessionForGroup (t_check (clock env)) g st)"
  from n have g0: "fst (getSessionForGroup (t_check (clock env)) g st) = None"
    by (simp add: fst_get)
  have c: "checkAndRotate (estimator env) (rotation_threshold (settings env))
             (t_check (clock env)) (ms_rotate (clock env)) g st = (None, ?st0)"
    using g0 by (rule checkAndRotate_no_entry)
  from n have c0: "current ?st0 = current st"
    by (simp add: current_get)
  with n have g1: "fst (getSessionForGroup (t_get (clock env)) g ?st0) = None"
    and c1: "current (snd (getSessionForGroup (t_get (clock env)) g ?st0)) = current st"
    by (simp_all add: fst_get current_get)
  from g c g1 have "find_existing env options st =
      (Inr None, snd (getSessionForGroup (t_get (clock env)) g ?st0))"
    by (simp add: find_existing_def grouped_def group_of_def case_prod_unfold)
  with c1 show ?thesis by blast
qed


lemma execClaude_new_store:
  assumes f: "find_existing env options st = (Inr None, st1)"
    and r: "run_with_fallback env options (invocation_for prompt_text None) = (exec, used, configs)"
  shows "snd (execClaude env prompt_text options st) = snd (read_output env options None exec st1)"
  using f r
  by (simp add: execClaude_def case_prod_unfold Let_def split: sum.splits)

lemma execClaude_new_result:
  assumes f: "find_existing env options st = (Inr None, st1)"
    and r: "run_with_fallback env options (invocation_for prompt_text None) = (exec, used, configs)"
    and o: "read_output env options None exec st1 = ((JStr out, JStr sid), st2)"
  shows "execClaude env prompt_text options st =
     (Inr \<lparr>result = \<lparr>stdout = JStr out, stderr = rawStderr exec, exitCode = rawExitCode exec\<rparr>,
           usedFallback = used, calls = configs\<rparr>, st2)"
  using f r o
  by (simp add: execClaude_def Let_def)

text \<open>
  Claim C4.  Take a run with a session group \<open>g\<close>, with persistence, whose group has no
  entry in the registry, and whose final child outcome has exit code 0 and carries no
  rate-limit message.  If the output parses and the parsed value is not \<^verbatim>\<open>null\<close>, the
  registry gains one entry for \<open>g\<close> with the \<^verbatim>\<open>session_id\<close> of the parsed output and 0
  content tokens, and \<open>getSessionForGroup\<close> on \<open>g\<close> returns that entry afterwards.  If
  the output does not parse, or parses to \<^verbatim>\<open>null\<close>, the call returns the raw output as
  its result and the registry has the entries it had.
\<close>

theorem new_session_is_recorded:
  assumes g: "sessionGroup options = Some g" "g \<noteq> []" "\<not> noSessionPersistence options"
    and n: "findIndex (\<lambda>s. group s = g) (current st) = None"
    and r: "run_with_fallback env options (invocation_for prompt_text None) = (exec, used, configs)"
    and x: "rawExitCode exec = 0"
    and l: "extractRateLimitMessage (rawStdout exec) (rawStderr exec) = None"
  shows "(\<forall>json sid. JSON_parse env (rawStdout exec) = Some json \<and> get_prop json ''session_id'' = Inr sid \<longrightarrow>
            (let st' = snd (execClaude env prompt_text options st) in
               current st' = current st @
                 [\<lparr>sessionId = sid, group = g, createdAt = t_created (clock env),
                   lastUsedAt = t_lastUsed (clock env), contentTokens = Fin 0, summary = None\<rparr>] \<and>
               fst (getSessionForGroup now g st') =
                 Some \<lparr>sessionId = sid, group = g, createdAt = t_created (clock env),
                        lastUsedAt = now, contentTokens = Fin 0, summary = None\<rparr>)) \<and>
         (JSON_parse env (rawStdout exec) = None \<or> JSON_parse env (rawStdout exec) = Some JNull \<longrightarrow>
            fst (execClaude env prompt_text options st) =
              Inr \<lparr>result = \<lparr>stdout = JStr (rawStdout exec), stderr = rawStderr exec, exitCode = 0\<rparr>,
                    usedFallback = used, calls = configs\<rparr> \<and>
            current (snd (execClaude env prompt_text options st)) = current st)"
proof -
  from find_existing_no_entry [OF g n, of env]
  obtain st1 where f: "find_existing env options st = (Inr None, st1)" and c1: "current st1 = current st"
    by blast
  have s: "snd (execClaude env prompt_text options st) = snd (read_output env options None exec st1)"
    using f r by (rule execClaude_new_store)
  from g have gr: "grouped options" "group_of options = g"
    by (simp_all add: grouped_def group_of_def)
  have ok: "current (snd (execClaude env prompt_text options st)) = current st @
                 [\<lparr>sessionId = sid, group = g, createdAt = t_created (clock env),
                   lastUsedAt = t_lastUsed (clock env), contentTokens = Fin 0, summary = None\<rparr>] \<and>
               fst (getSessionForGroup now g (snd (execClaude env prompt_text options st))) =
                 Some \<lparr>sessionId = sid, group = g, createdAt = t_created (clock env),
                        lastUsedAt = now, contentTokens = Fin 0, summary = None\<rparr>"
    if p: "JSON_parse env (rawStdout exec) = Some json" and q: "get_prop json ''session_id'' = Inr sid"
    for json sid
  proof -
    let ?c = "createSessionForGroup (t_created (clock env)) (t_lastUsed (clock env)) g sid st1"
    have "read_output env options None exec st1 =
            ((nullish (get_prop_opt json ''result'') (JStr []), sid), snd ?c)"
      using x l p q gr by (simp add: read_output_def Let_def)
    with s have s': "snd (execClaude env prompt_text options st) = snd ?c" by simp
    from n c1 have "current (snd ?c) = current st @ [fst ?c]"
      by (simp add: current_create fst_create)
    moreover have "fst (getSessionForGroup now g (snd ?c)) = Some ((fst ?c)\<lparr>lastUsedAt := now\<rparr>)"
      by (rule get_after_create)
    ultimately show ?thesis
      using s' by (simp add: fst_create)
  qed
  have bad: "fst (execClaude env prompt_text options st) =
              Inr \<lparr>result = \<lparr>stdout = JStr (rawStdout exec), stderr = rawStderr exec, exitCode = 0\<rparr>,
                    usedFallback = used, calls = configs\<rparr> \<and>
            current (snd (execClaude env prompt_text options st)) = current st"
    if p: "JSON_parse env (rawStdout exec) = None \<or> JSON_parse env (rawStdout exec) = Some JNull"
  proof -
    from p have "read_output env options None exec st1 = ((JStr (rawStdout exec), JStr ''unknown''), st1)"
      using x l by (auto simp: read_output_def Let_def)
    with f r have "execClaude env prompt_text options st =
        (Inr \<lparr>result = \<lparr>stdout = JStr (rawStdout exec), stderr = rawStderr exec,
                         exitCode = rawExitCode exec\<rparr>,
              usedFallback = used, calls = configs\<rparr>, st1)"
      by (rule execClaude_new_result)
    with x c1 show ?thesis by simp
  qed
  from ok bad show ?thesis
    by (simp add: Let_def)
qed


theorem new_session_is_recorded_witness:
  "sessionGroup ops_options = Some ''ops'' \<and> \<not> noSessionPersistence ops_options \<and>
   findIndex (\<lambda>s. group s = ''ops'') (current empty_store) = None \<and>
   run_with_fallback (example_env plain_child example_settings) ops_options (invocation_for ''hello'' None)
     = (\<lparr>rawStdout = ''structured'', rawStderr = [], rawExitCode = 0\<rparr>, False,
        [\<lparr>model = ''opus'', api = []\<rparr>]) \<and>
   fst (getSessionForGroup ''t9'' ''ops''
          (snd (execClaude (example_env plain_child example_settings) ''hello'' ops_options empty_store)))
     = Some \<lparr>sessionId = JStr ''abc123'', group = ''ops'', createdAt = ''t3'', lastUsedAt = ''t9'',
             contentTokens = Fin 0, summary = None\<rparr> \<and>
   fst (execClaude (example_env garbled_child example_settings) ''hello'' ops_options empty_store)
     = Inr \<lparr>result = \<lparr>stdout = JStr ''garbled'', stderr = [], exitCode = 0\<rparr>,
            usedFallback = False, calls = [\<lparr>model = ''opus'', api = []\<rparr>]\<rparr> \<and>
   current (snd (execClaude (example_env garbled_child example_settings) ''hello'' ops_options empty_store))
     = []"
proof -
  have g: "sessionGroup ops_options = Some ''ops''" "''ops'' \<noteq> []" "\<not> noSessionPersistence ops_options"
    by (simp_all add: ops_options_def)
  have n: "findIndex (\<lambda>s. group s = ''ops'') (current empty_store) = None"
    and c: "current empty_store = []"
    by (simp_all add: current_def load_def empty_store_def)
  have r1: "run_with_fallback (example_env plain_child example_settings) ops_options (invocation_for ''hello'' None)
     = (\<lparr>rawStdout = ''structured'', rawStderr = [], rawExitCode = 0\<rparr>, False,
        [\<lparr>model = ''opus'', api = []\<rparr>])"
    by code_simp
  have r2: "run_with_fallback (example_env garbled_child example_settings) ops_options (invocation_for ''hello'' None)
     = (\<lparr>rawStdout = ''garbled'', rawStderr = [], rawExitCode = 0\<rparr>, False,
        [\<lparr>model = ''opus'', api = []\<rparr>])"
    by code_simp
  have l1: "extractRateLimitMessage ''structured'' [] = None"
    and l2: "extractRateLimitMessage ''garbled'' [] = None"
    by code_simp+
  have p1: "JSON_parse (example_env plain_child example_settings) ''structured'' =
              Some (JObj [(''session_id'', JStr ''abc123''), (''result'', JStr ''hi'')])"
    and p2: "JSON_parse (example_env garbled_child example_settings) ''garbled'' = None"
    by (simp_all add: example_env_def structured_parse_def)
  from new_session_is_recorded [OF g n r1, of "''t9''"] l1 p1
  have a: "fst (getSessionForGroup ''t9'' ''ops''
          (snd (execClaude (example_env plain_child example_settings) ''hello'' ops_options empty_store)))
     = Some \<lparr>sessionId = JStr ''abc123'', group = ''ops'', createdAt = ''t3'', lastUsedAt = ''t9'',
             contentTokens = Fin 0, summary = None\<rparr>"
    by (simp add: Let_def example_env_def example_clock_def)
  from new_session_is_recorded [OF g n r2, of "''t9''"] l2 p2 c
  have b: "fst (execClaude (example_env garbled_child example_settings) ''hello'' ops_options empty_store)
     = Inr \<lparr>result = \<lparr>stdout = JStr ''garbled'', stderr = [], exitCode = 0\<rparr>,
            usedFallback = False, calls = [\<lparr>model = ''opus'', api = []\<rparr>]\<rparr> \<and>
   current (snd (execClaude (example_env garbled_child example_settings) ''hello'' ops_options empty_store))
     = []"
    by simp
  from g n r1 a b show ?thesis by simp
qed


lemma find_existing_parse [simp]:
  "find_existing (env\<lparr>JSON_parse := p\<rparr>) options st = find_existing env options st"
  by (simp add: find_existing_def Let_def case_prod_unfold split: option.splits)

lemma run_with_fallback_parse [simp]:
  "run_with_fallback (env\<lparr>JSON_parse := p\<rparr>) options i = run_with_fallback env options i"
  by (simp add: run_with_fallback_def Let_def split: option.splits)

lemma read_output_limited:
  "extractRateLimitMessage (rawStdout exec) (rawStderr exec) = Some m \<Longrightarrow>
   read_output env options existing exec st =
     ((JStr m, case existing of Some sid \<Rightarrow> nullish sid (JStr ''unknown'') | None \<Rightarrow> JStr ''unknown''), st)"
  by (simp add: read_output_def Let_def)

lemma execClaude_limited:
  assumes f: "find_existing env options st = (Inr existing, st1)"
    and r: "run_with_fallback env options (invocation_for prompt_text existing) = (exec, used, configs)"
    and m: "extractRateLimitMessage (rawStdout exec) (rawStderr exec) = Some m"
  shows "snd (execClaude env prompt_text options st) = st1"
    and "fst (execClaude env prompt_text options st) = Inr rep \<Longrightarrow>
           stdout (result rep) = JStr m \<and> usedFallback rep = used \<and> calls rep = configs"
    and "execClaude (env\<lparr>JSON_parse := p\<rparr>) prompt_text options st = execClaude env prompt_text options st"
proof -
  show "snd (execClaude env prompt_text options st) = st1"
    using f r by (simp add: execClaude_def Let_def read_output_limited [OF m] split: sum.splits)
  show "fst (execClaude env prompt_text options st) = Inr rep \<Longrightarrow>
           stdout (result rep) = JStr m \<and> usedFallback rep = used \<and> calls rep = configs"
    using f r by (auto simp: execClaude_def Let_def read_output_limited [OF m] split: sum.splits)
  show "execClaude (env\<lparr>JSON_parse := p\<rparr>) prompt_text options st = execClaude env prompt_text options st"
    using f r by (simp add: execClaude_def Let_def read_output_limited [OF m] split: sum.splits)
qed

lemma execClaude_limited_returns:
  assumes f: "find_existing env options st = (Inr existing, st1)"
    and r: "run_with_fallback env options (invocation_for prompt_text existing) = (exec, used, configs)"
    and m: "extractRateLimitMessage (rawStdout exec) (rawStderr exec) = Some m"
    and e: "existing = None \<or> (\<exists>s. existing = Some (JStr s))"
  shows "execClaude env prompt_text options st =
     (Inr \<lparr>result = \<lparr>stdout = JStr m, stderr = rawStderr exec, exitCode = rawExitCode exec\<rparr>,
           usedFallback = used, calls = configs\<rparr>, st1)"
  using f r e
  by (auto simp: execClaude_def Let_def read_output_limited [OF m])

text \<open>
  Claim C5.  The rate-limit message is found exactly when the pattern, which ignores case,
  matches the output or the diagnostic output; it is the trimmed output when the pattern
  matches the output and the trimmed diagnostic output otherwise, and the pattern matches
  it.  About the runs of the child: when the primary output or diagnostic output carries
  the message, the child is run a second time, with the fallback configuration, exactly
  when a fallback configuration is present and differs from the primary one; it is then
  run twice in all and the second outcome is the one that counts, and otherwise it is run
  once.  Without the message in the primary outcome there is no second run.  About the
  report: when the pattern matches the output or the diagnostic output of the outcome that
  counts, the registry is left as the session lookup left it, a call that returns reports
  that message as its output, the call does return, with the message, the diagnostic
  output and the exit code of the outcome, when there is no session to resume or the
  session id is a string, and the call does not depend on the parser.
\<close>

theorem rate_limit_retry_and_report:
  "(\<forall>out err. extractRateLimitMessage out err \<noteq> None \<longleftrightarrow>
       RATE_LIMIT_PATTERN_test out \<or> RATE_LIMIT_PATTERN_test err) \<and>
   (\<forall>out err. extractRateLimitMessage out err =
       (if RATE_LIMIT_PATTERN_test out then Some (trim out)
        else if RATE_LIMIT_PATTERN_test err then Some (trim err) else None)) \<and>
   (\<forall>out err m. extractRateLimitMessage out err = Some m \<longrightarrow> RATE_LIMIT_PATTERN_test m) \<and>
   (let primaryConfig =
          \<lparr>model = (case model_override options of Some m \<Rightarrow> m | None \<Rightarrow> settings_model (settings env)),
           api = settings_api (settings env)\<rparr>;
        fallbackConfig = (case fallback (settings env) of Some f \<Rightarrow> f | None \<Rightarrow> \<lparr>model = [], api = []\<rparr>);
        first = runClaudeOnce env i (model primaryConfig) (api primaryConfig);
        second = runClaudeOnce env i (model fallbackConfig) (api fallbackConfig);
        (exec, used, configs) = run_with_fallback env options i
    in (extractRateLimitMessage (rawStdout first) (rawStderr first) \<noteq> None \<longrightarrow>
          (used \<longleftrightarrow> hasModelConfig fallbackConfig \<and> \<not> sameModelConfig primaryConfig fallbackConfig) \<and>
          (used \<longrightarrow> configs = [primaryConfig, fallbackConfig] \<and> exec = second) \<and>
          (\<not> used \<longrightarrow> configs = [primaryConfig] \<and> exec = first)) \<and>
       (extractRateLimitMessage (rawStdout first) (rawStderr first) = None \<longrightarrow>
          \<not> used \<and> configs = [primaryConfig] \<and> exec = first)) \<and>
   (\<forall>existing st' exec used configs.
       find_existing env options st = (Inr existing, st') \<and>
       run_with_fallback env options (invocation_for prompt_text existing) = (exec, used, configs) \<and>
       (RATE_LIMIT_PATTERN_test (rawStdout exec) \<or> RATE_LIMIT_PATTERN_test (rawStderr exec)) \<longrightarrow>
         (let message = (if RATE_LIMIT_PATTERN_test (rawStdout exec) then trim (rawStdout exec)
                         else trim (rawStderr exec))
          in RATE_LIMIT_PATTERN_test message \<and>
             snd (execClaude env prompt_text options st) = st' \<and>
             (\<forall>rep. fst (execClaude env prompt_text options st) = Inr rep \<longrightarrow>
                stdout (result rep) = JStr message \<and> usedFallback rep = used \<and> calls rep = configs) \<and>
             (existing = None \<or> (\<exists>s. existing = Some (JStr s)) \<longrightarrow>
                fst (execClaude env prompt_text options st) =
                  Inr \<lparr>result = \<lparr>stdout = JStr message, stderr = rawStderr exec,
                                   exitCode = rawExitCode exec\<rparr>,
                        usedFallback = used, calls = configs\<rparr>) \<and>
             (\<forall>p. execClaude (env\<lparr>JSON_parse := p\<rparr>) prompt_text options st =
                    execClaude env prompt_text options st)))"
proof -
  have 1: "(let primaryConfig =
          \<lparr>model = (case model_override options of Some m \<Rightarrow> m | None \<Rightarrow> settings_model (settings env)),
           api = settings_api (settings env)\<rparr>;
        fallbackConfig = (case fallback (settings env) of Some f \<Rightarrow> f | None \<Rightarrow> \<lparr>model = [], api = []\<rparr>);
        first = runClaudeOnce env i (model primaryConfig) (api primaryConfig);
        second = runClaudeOnce env i (model fallbackConfig) (api fallbackConfig);
        (exec, used, configs) = run_with_fallback env options i
    in (extractRateLimitMessage (rawStdout first) (rawStderr first) \<noteq> None \<longrightarrow>
          (used \<longleftrightarrow> hasModelConfig fallbackConfig \<and> \<not> sameModelConfig primaryConfig fallbackConfig) \<and>
          (used \<longrightarrow> configs = [primaryConfig, fallbackConfig] \<and> exec = second) \<and>
          (\<not> used \<longrightarrow> configs = [primaryConfig] \<and> exec = first)) \<and>
       (extractRateLimitMessage (rawStdout first) (rawStderr first) = None \<longrightarrow>
          \<not> used \<and> configs = [primaryConfig] \<and> exec = first))"
    by (auto simp: run_with_fallback_def Let_def)
  have 2: "RATE_LIMIT_PATTERN_test message \<and>
             snd (execClaude env prompt_text options st) = st1 \<and>
             (\<forall>rep. fst (execClaude env prompt_text options st) = Inr rep \<longrightarrow>
                stdout (result rep) = JStr message \<and> usedFallback rep = used \<and> calls rep = configs) \<and>
             (existing = None \<or> (\<exists>s. existing = Some (JStr s)) \<longrightarrow>
                fst (execClaude env prompt_text options st) =
                  Inr \<lparr>result = \<lparr>stdout = JStr message, stderr = rawStderr exec,
                                   exitCode = rawExitCode exec\<rparr>,
                        usedFallback = used, calls = configs\<rparr>) \<and>
             (\<forall>p. execClaude (env\<lparr>JSON_parse := p\<rparr>) prompt_text options st =
                    execClaude env prompt_text options st)"
    if f: "find_existing env options st = (Inr existing, st1)"
      and r: "run_with_fallback env options (invocation_for prompt_text existing) = (exec, used, configs)"
      and t: "RATE_LIMIT_PATTERN_test (rawStdout exec) \<or> RATE_LIMIT_PATTERN_test (rawStderr exec)"
      and d: "message = (if RATE_LIMIT_PATTERN_test (rawStdout exec) then trim (rawStdout exec)
                         else trim (rawStderr exec))"
    for existing st1 exec used configs message
  proof -
    from t d have m: "extractRateLimitMessage (rawStdout exec) (rawStderr exec) = Some message"
      by (auto simp: extractRateLimitMessage_eq)
    note l = execClaude_limited [OF f r m]
    show ?thesis
    proof (intro conjI allI impI)
      show "RATE_LIMIT_PATTERN_test message" using m by (rule extractRateLimitMessage_matches)
      show "snd (execClaude env prompt_text options st) = st1" by (rule l(1))
      show "stdout (result rep) = JStr message"
        if "fst (execClaude env prompt_text options st) = Inr rep" for rep
        using l(2) [OF that] by simp
      show "usedFallback rep = used"
        if "fst (execClaude env prompt_text options st) = Inr rep" for rep
        using l(2) [OF that] by simp
      show "calls rep = configs"
        if "fst (execClaude env prompt_text options st) = Inr rep" for rep
        using l(2) [OF that] by simp
      show "fst (execClaude env prompt_text options st) =
                  Inr \<lparr>result = \<lparr>stdout = JStr message, stderr = rawStderr exec,
                                   exitCode = rawExitCode exec\<rparr>,
                        usedFallback = used, calls = configs\<rparr>"
        if "existing = None \<or> (\<exists>s. existing = Some (JStr s))"
        using execClaude_limited_returns [OF f r m that] by simp
      show "execClaude (env\<lparr>JSON_parse := p\<rparr>) prompt_text options st =
                    execClaude env prompt_text options st" for p
        by (rule l(3))
    qed
  qed
  show ?thesis
  proof (intro conjI)
    show "\<forall>out err. extractRateLimitMessage out err \<noteq> None \<longleftrightarrow>
       RATE_LIMIT_PATTERN_test out \<or> RATE_LIMIT_PATTERN_test err"
      using extractRateLimitMessage_iff by blast
    show "\<forall>out err. extractRateLimitMessage out err =
       (if RATE_LIMIT_PATTERN_test out then Some (trim out)
        else if RATE_LIMIT_PATTERN_test err then Some (trim err) else None)"
      using extractRateLimitMessage_eq by blast
    show "\<forall>out err m. extractRateLimitMessage out err = Some m \<longrightarrow> RATE_LIMIT_PATTERN_test m"
      using extractRateLimitMessage_matches by blast
    show "\<forall>existing st' exec used configs.
       find_existing env options st = (Inr existing, st') \<and>
       run_with_fallback env options (invocation_for prompt_text existing) = (exec, used, configs) \<and>
       (RATE_LIMIT_PATTERN_test (rawStdout exec) \<or> RATE_LIMIT_PATTERN_test (rawStderr exec)) \<longrightarrow>
         (let message = (if RATE_LIMIT_PATTERN_test (rawStdout exec) then trim (rawStdout exec)
                         else trim (rawStderr exec))
          in RATE_LIMIT_PATTERN_test message \<and>
             snd (execClaude env prompt_text options st) = st' \<and>
             (\<forall>rep. fst (execClaude env prompt_text options st) = Inr rep \<longrightarrow>
                stdout (result rep) = JStr message \<and> usedFallback rep = used \<and> calls rep = configs) \<and>
             (existing = None \<or> (\<exists>s. existing = Some (JStr s)) \<longrightarrow>
                fst (execClaude env prompt_text options st) =
                  Inr \<lparr>result = \<lparr>stdout = JStr message, stderr = rawStderr exec,
                                   exitCode = rawExitCode exec\<rparr>,
                        usedFallback = used, calls = configs\<rparr>) \<and>
             (\<forall>p. execClaude (env\<lparr>JSON_parse := p\<rparr>) prompt_text options st =
                    execClaude env prompt_text options st))"
      unfolding Let_def using 2 by blast
    show "(let primaryConfig =
          \<lparr>model = (case model_override options of Some m \<Rightarrow> m | None \<Rightarrow> settings_model (settings env)),
           api = settings_api (settings env)\<rparr>;
        fallbackConfig = (case fallback (settings env) of Some f \<Rightarrow> f | None \<Rightarrow> \<lparr>model = [], api = []\<rparr>);
        first = runClaudeOnce env i (model primaryConfig) (api primaryConfig);
        second = runClaudeOnce env i (model fallbackConfig) (api fallbackConfig);
        (exec, used, configs) = run_with_fallback env options i
    in (extractRateLimitMessage (rawStdout first) (rawStderr first) \<noteq> None \<longrightarrow>
          (used \<longleftrightarrow> hasModelConfig fallbackConfig \<and> \<not> sameModelConfig primaryConfig fallbackConfig) \<and>
          (used \<longrightarrow> configs = [primaryConfig, fallbackConfig] \<and> exec = second) \<and>
          (\<not> used \<longrightarrow> configs = [primaryConfig] \<and> exec = first)) \<and>
       (extractRateLimitMessage (rawStdout first) (rawStderr first) = None \<longrightarrow>
          \<not> used \<and> configs = [primaryConfig] \<and> exec = first))"
      by (rule 1)
  qed
qed


theorem rate_limit_retry_and_report_witness:
  "extractRateLimitMessage limit_text [] = Some limit_text \<and>
   extractRateLimitMessage ''fine'' ('' '' @ limit_text @ nl) = Some limit_text \<and>
   run_with_fallback (example_env limited_child example_settings) ops_options (invocation_for ''hello'' None)
     = (\<lparr>rawStdout = ''structured'', rawStderr = [], rawExitCode = 0\<rparr>, True,
        [\<lparr>model = ''opus'', api = []\<rparr>, \<lparr>model = ''glm'', api = ''key''\<rparr>]) \<and>
   run_with_fallback (example_env limited_child (example_settings\<lparr>fallback := None\<rparr>)) ops_options
       (invocation_for ''hello'' None)
     = (\<lparr>rawStdout = limit_text, rawStderr = [], rawExitCode = 1\<rparr>, False, [\<lparr>model = ''opus'', api = []\<rparr>]) \<and>
   run_with_fallback
       (example_env limited_child (example_settings\<lparr>fallback := Some \<lparr>model = '' OPUS '', api = []\<rparr>\<rparr>))
       ops_options (invocation_for ''hello'' None)
     = (\<lparr>rawStdout = limit_text, rawStderr = [], rawExitCode = 1\<rparr>, False, [\<lparr>model = ''opus'', api = []\<rparr>]) \<and>
   execClaude (example_env limited_child (example_settings\<lparr>fallback := None\<rparr>)) ''hello'' ops_options
       empty_store
     = (Inr \<lparr>result = \<lparr>stdout = JStr limit_text, stderr = [], exitCode = 1\<rparr>,
             usedFallback = False, calls = [\<lparr>model = ''opus'', api = []\<rparr>]\<rparr>,
        \<lparr>cached = Some \<lparr>sessions = []\<rparr>, disk = None\<rparr>)"
proof -
  let ?env = "example_env limited_child (example_settings\<lparr>fallback := None\<rparr>)"
  have m: "extractRateLimitMessage limit_text [] = Some limit_text"
    by code_simp
  have m': "extractRateLimitMessage ''fine'' ('' '' @ limit_text @ nl) = Some limit_text"
    by code_simp
  have pm: "RATE_LIMIT_PATTERN_test limit_text"
    by code_simp
  have tr: "trim limit_text = limit_text"
    by code_simp
  have r1: "run_with_fallback (example_env limited_child example_settings) ops_options (invocation_for ''hello'' None)
     = (\<lparr>rawStdout = ''structured'', rawStderr = [], rawExitCode = 0\<rparr>, True,
        [\<lparr>model = ''opus'', api = []\<rparr>, \<lparr>model = ''glm'', api = ''key''\<rparr>])"
    by code_simp
  have r2: "run_with_fallback ?env ops_options (invocation_for ''hello'' None)
     = (\<lparr>rawStdout = limit_text, rawStderr = [], rawExitCode = 1\<rparr>, False, [\<lparr>model = ''opus'', api = []\<rparr>])"
    by code_simp
  have r3: "run_with_fallback
       (example_env limited_child (example_settings\<lparr>fallback := Some \<lparr>model = '' OPUS '', api = []\<rparr>\<rparr>))
       ops_options (invocation_for ''hello'' None)
     = (\<lparr>rawStdout = limit_text, rawStderr = [], rawExitCode = 1\<rparr>, False, [\<lparr>model = ''opus'', api = []\<rparr>])"
    by code_simp
  have f: "find_existing ?env ops_options empty_store = (Inr None, \<lparr>cached = Some \<lparr>sessions = []\<rparr>, disk = None\<rparr>)"
    by code_simp
  note t = rate_limit_retry_and_report
         [where env = ?env and options = ops_options and st = empty_store and prompt_text = "''hello''"
            and i = "invocation_for ''hello'' None",
          THEN conjunct2, THEN conjunct2, THEN conjunct2, THEN conjunct2, rule_format,
          where existing = None and st' = "\<lparr>cached = Some \<lparr>sessions = []\<rparr>, disk = None\<rparr>"
            and exec = "\<lparr>rawStdout = limit_text, rawStderr = [], rawExitCode = 1\<rparr>"
            and used = False and configs = "[\<lparr>model = ''opus'', api = []\<rparr>]"]
  from t f r2 pm tr
  have "execClaude ?env ''hello'' ops_options empty_store
     = (Inr \<lparr>result = \<lparr>stdout = JStr limit_text, stderr = [], exitCode = 1\<rparr>,
             usedFallback = False, calls = [\<lparr>model = ''opus'', api = []\<rparr>]\<rparr>,
        \<lparr>cached = Some \<lparr>sessions = []\<rparr>, disk = None\<rparr>)"
    by (simp add: Let_def prod_eq_iff)
  with m m' r1 r2 r3 show ?thesis by simp
qed

section \<open>Tasks of one key run one after the other\<close>

lemma map_get_map_set: "map_get (map_set k v m) k' = (if k' = k then Some v else map_get m k')"
  by (induction m) (auto simp: map_get_def)

lemma queue_inv_initial: "queue_inv initial_queue"
  by (simp add: queue_inv_def chain_ok_def chain_rel_def initial_queue_def map_get_def is_settled_def)


lemma settled_lt: "queue_inv q \<Longrightarrow> is_settled (phase_of q i) \<Longrightarrow> i < next_id q"
  by (rule ccontr) (auto simp: queue_inv_def is_settled_def)

lemma not_waiting_lt: "queue_inv q \<Longrightarrow> phase_of q i \<noteq> Waiting \<Longrightarrow> i < next_id q"
  by (rule ccontr) (auto simp: queue_inv_def)

lemma chain_ok_enqueue:
  assumes c: "chain_ok q"
  shows "chain_ok (snd (enqueue key q))"
proof -
  let ?n = "next_id q"
  let ?k = "(key_of q)(?n := key)"
  let ?p = "(prev_of q)(?n := map_get (groupQueues q) key)"
  let ?g = "map_set key ?n (groupQueues q)"
  from c have c1: "\<And>i k. i < ?n \<Longrightarrow> prev_of q i = None \<Longrightarrow> k < i \<Longrightarrow> key_of q k \<noteq> key_of q i"
    and c2: "\<And>i p. i < ?n \<Longrightarrow> prev_of q i = Some p \<Longrightarrow>
               p < i \<and> key_of q p = key_of q i \<and> (\<forall>k. p < k \<and> k < i \<longrightarrow> key_of q k \<noteq> key_of q i)"
    and c3: "\<And>key k. map_get (groupQueues q) key = None \<Longrightarrow> k < ?n \<Longrightarrow> key_of q k \<noteq> key"
    and c4: "\<And>key p. map_get (groupQueues q) key = Some p \<Longrightarrow>
               p < ?n \<and> key_of q p = key \<and> (\<forall>k. p < k \<and> k < ?n \<longrightarrow> key_of q k \<noteq> key)"
    unfolding chain_ok_def chain_rel_def by blast+
  have 1: "?k k \<noteq> ?k i" if "i < Suc ?n" "?p i = None" "k < i" for i k
  proof (cases "i = ?n")
    case True
    with that c3 [of key k] show ?thesis by simp
  next
    case False
    with that c1 [of i k] show ?thesis by simp
  qed
  have 2: "p < i \<and> ?k p = ?k i \<and> (\<forall>k. p < k \<and> k < i \<longrightarrow> ?k k \<noteq> ?k i)"
    if "i < Suc ?n" "?p i = Some p" for i p
  proof (cases "i = ?n")
    case True
    with that c4 [of key p] show ?thesis by simp
  next
    case False
    with that c2 [of i p] show ?thesis by simp
  qed
  have 3: "?k k \<noteq> key'" if "map_get ?g key' = None" "k < Suc ?n" for key' k
  proof -
    from that(1) have ne: "key' \<noteq> key" and o: "map_get (groupQueues q) key' = None"
      by (simp_all add: map_get_map_set split: if_splits)
    show ?thesis
    proof (cases "k = ?n")
      case True
      with ne show ?thesis by simp
    next
      case False
      with that(2) c3 [OF o, of k] show ?thesis by simp
    qed
  qed
  have 4: "p < Suc ?n \<and> ?k p = key' \<and> (\<forall>k. p < k \<and> k < Suc ?n \<longrightarrow> ?k k \<noteq> key')"
    if "map_get ?g key' = Some p" for key' p
  proof (cases "key' = key")
    case True
    with that show ?thesis by (simp add: map_get_map_set)
  next
    case False
    with that have o: "map_get (groupQueues q) key' = Some p"
      by (simp add: map_get_map_set)
    from c4 [OF o] False show ?thesis by (simp add: less_Suc_eq)
  qed
  have "chain_rel (Suc ?n) ?k ?p ?g"
    unfolding chain_rel_def using 1 2 3 4 by blast
  then show ?thesis
    by (simp add: chain_ok_def enqueue_def Let_def)
qed


lemma queue_invI:
  assumes "chain_ok q"
    and "\<And>i. next_id q \<le> i \<Longrightarrow> phase_of q i = Waiting \<and> \<not> tail_of q i"
    and "\<And>i. tail_of q i \<Longrightarrow> is_settled (phase_of q i)"
    and "\<And>j i. j < next_id q \<Longrightarrow> phase_of q j \<noteq> Waiting \<Longrightarrow> i < j \<Longrightarrow>
           key_of q i = key_of q j \<Longrightarrow> tail_of q i"
    and "\<And>i. i \<in> set (finished q) \<longleftrightarrow> is_settled (phase_of q i)"
    and "distinct (finished q)"
    and "sorted_wrt (\<lambda>a b. key_of q a = key_of q b \<longrightarrow> a < b) (finished q)"
  shows "queue_inv q"
  unfolding queue_inv_def using assms by blast

lemma queue_invD:
  assumes "queue_inv q"
  shows "chain_ok q"
    and "\<And>i. next_id q \<le> i \<Longrightarrow> phase_of q i = Waiting \<and> \<not> tail_of q i"
    and "\<And>i. tail_of q i \<Longrightarrow> is_settled (phase_of q i)"
    and "\<And>j i. j < next_id q \<Longrightarrow> phase_of q j \<noteq> Waiting \<Longrightarrow> i < j \<Longrightarrow>
           key_of q i = key_of q j \<Longrightarrow> tail_of q i"
    and "\<And>i. i \<in> set (finished q) \<longleftrightarrow> is_settled (phase_of q i)"
    and "distinct (finished q)"
    and "sorted_wrt (\<lambda>a b. key_of q a = key_of q b \<longrightarrow> a < b) (finished q)"
  using assms unfolding queue_inv_def by blast+

lemma is_settled_simps [simp]:
  "is_settled Waiting = False" "is_settled Running = False" "is_settled (Settled r) = True"
  by (simp_all add: is_settled_def)

lemma queue_inv_enqueue:
  assumes inv: "queue_inv q"
  shows "queue_inv (snd (enqueue key q))"
proof -
  let ?n = "next_id q"
  let ?q = "snd (enqueue key q)"
  note d = queue_invD [OF inv]
  from d(2) [of ?n] have w: "phase_of q ?n = Waiting" "\<not> tail_of q ?n" by simp_all
  have sel: "next_id ?q = Suc ?n" "key_of ?q = (key_of q)(?n := key)"
    "phase_of ?q = phase_of q" "tail_of ?q = tail_of q" "finished ?q = finished q"
    using w by (simp_all add: enqueue_def Let_def fun_upd_idem_iff [THEN iffD2])
  have keys: "key_of ?q i = key_of q i" if "i < ?n" for i
    using that by (simp add: sel)
  have fin_lt: "i < ?n" if "i \<in> set (finished q)" for i
    using that d(5) [of i] settled_lt [OF inv, of i] by simp
  show ?thesis
  proof (rule queue_invI)
    show "chain_ok ?q" using d(1) by (rule chain_ok_enqueue)
  next
    fix i assume "next_id ?q \<le> i"
    then show "phase_of ?q i = Waiting \<and> \<not> tail_of ?q i"
      using d(2) [of i] by (simp add: sel)
  next
    fix i assume "tail_of ?q i"
    then show "is_settled (phase_of ?q i)" using d(3) [of i] by (simp add: sel)
  next
    fix j i
    assume a: "j < next_id ?q" "phase_of ?q j \<noteq> Waiting" "i < j" "key_of ?q i = key_of ?q j"
    from a(2) w have "j \<noteq> ?n" by (auto simp: sel)
    with a(1) have j: "j < ?n" by (simp add: sel)
    with a(3) have "i < ?n" by simp
    with a j d(4) [of j i] show "tail_of ?q i" by (simp add: sel keys)
  next
    fix i show "i \<in> set (finished ?q) \<longleftrightarrow> is_settled (phase_of ?q i)"
      using d(5) [of i] by (simp add: sel)
  next
    show "distinct (finished ?q)" using d(6) by (simp add: sel)
  next
    have "sorted_wrt (\<lambda>a b. key_of ?q a = key_of ?q b \<longrightarrow> a < b) (finished q)"
      using d(7)
    proof (rule sorted_wrt_mono_rel [rotated])
      fix a b assume "a \<in> set (finished q)" "b \<in> set (finished q)"
        and "key_of q a = key_of q b \<longrightarrow> a < b"
      then show "key_of ?q a = key_of ?q b \<longrightarrow> a < b"
        using fin_lt [of a] fin_lt [of b] by (simp add: keys)
    qed
    then show "sorted_wrt (\<lambda>a b. key_of ?q a = key_of ?q b \<longrightarrow> a < b) (finished ?q)"
      by (simp add: sel)
  qed
qed

lemma queue_inv_counter: "queue_inv (q\<lparr>statelessCounter := c\<rparr>) = queue_inv q"
  by (simp add: queue_inv_def chain_ok_def)

lemma queue_inv_run:
  "queue_inv q \<Longrightarrow> queue_inv (snd (run options q))"
  by (simp add: run_def Let_def queue_inv_enqueue queue_inv_counter)


lemma chain_prev_covers:
  assumes c: "chain_ok q" and j: "j < next_id q" and i: "i < j" and k: "key_of q i = key_of q j"
  shows "\<exists>p. prev_of q j = Some p \<and> i \<le> p \<and> p < j \<and> key_of q p = key_of q j"
proof (cases "prev_of q j")
  case None
  with c j i k show ?thesis unfolding chain_ok_def chain_rel_def by blast
next
  case (Some p)
  with c j have p: "p < j" "key_of q p = key_of q j" "\<forall>k. p < k \<and> k < j \<longrightarrow> key_of q k \<noteq> key_of q j"
    unfolding chain_ok_def chain_rel_def by blast+
  from p(3) i k have "\<not> p < i" by blast
  with Some p show ?thesis by simp
qed

lemma queue_inv_start:
  assumes inv: "queue_inv q" and s: "step (Start j) q = Some q'"
  shows "queue_inv q'"
proof -
  note d = queue_invD [OF inv]
  from s have en: "j < next_id q" "phase_of q j = Waiting"
    and pr: "\<And>p. prev_of q j = Some p \<Longrightarrow> tail_of q p"
    and q': "q' = q\<lparr>phase_of := (phase_of q)(j := Running)\<rparr>"
    by (auto split: if_splits option.splits)
  show ?thesis
  proof (rule queue_invI)
    show "chain_ok q'" using d(1) by (simp add: q' chain_ok_def)
  next
    fix i assume "next_id q' \<le> i"
    with en(1) show "phase_of q' i = Waiting \<and> \<not> tail_of q' i"
      using d(2) [of i] by (simp add: q')
  next
    fix i assume "tail_of q' i"
    then have "is_settled (phase_of q i)" using d(3) [of i] by (simp add: q')
    with en(2) have "i \<noteq> j" by auto
    with \<open>is_settled (phase_of q i)\<close> show "is_settled (phase_of q' i)" by (simp add: q')
  next
    fix j' i
    assume a: "j' < next_id q'" "phase_of q' j' \<noteq> Waiting" "i < j'" "key_of q' i = key_of q' j'"
    show "tail_of q' i"
    proof (cases "j' = j")
      case False
      with a d(4) [of j' i] show ?thesis by (simp add: q')
    next
      case True
      with a have "i < j" "key_of q i = key_of q j" by (simp_all add: q')
      with chain_prev_covers [OF d(1) en(1)]
      obtain p where p: "prev_of q j = Some p" "i \<le> p" "p < j" "key_of q p = key_of q j"
        by blast
      from pr [OF p(1)] have tp: "tail_of q p" .
      show ?thesis
      proof (cases "i = p")
        case True
        with tp show ?thesis by (simp add: q')
      next
        case False
        with p(2) have "i < p" by simp
        moreover from d(3) [OF tp] have "phase_of q p \<noteq> Waiting" by auto
        moreover from p(3) en(1) have "p < next_id q" by simp
        moreover from \<open>key_of q i = key_of q j\<close> p(4) have "key_of q i = key_of q p" by simp
        ultimately have "tail_of q i" using d(4) [of p i] by blast
        then show ?thesis by (simp add: q')
      qed
    qed
  next
    fix i
    from en(2) d(5) [of j] have "j \<notin> set (finished q)" by simp
    then show "i \<in> set (finished q') \<longleftrightarrow> is_settled (phase_of q' i)"
      using d(5) [of i] by (auto simp: q')
  next
    show "distinct (finished q')" using d(6) by (simp add: q')
  next
    show "sorted_wrt (\<lambda>a b. key_of q' a = key_of q' b \<longrightarrow> a < b) (finished q')"
      using d(7) by (simp add: q')
  qed
qed

lemma queue_inv_finish:
  assumes inv: "queue_inv q" and s: "step (Finish j r) q = Some q'"
  shows "queue_inv q'"
proof -
  note d = queue_invD [OF inv]
  from s have en: "j < next_id q" "phase_of q j = Running"
    and q': "q' = q\<lparr>phase_of := (phase_of q)(j := Settled r), finished := finished q @ [j]\<rparr>"
    by (auto split: if_splits)
  from en(2) d(5) [of j] have jn: "j \<notin> set (finished q)" by simp
  show ?thesis
  proof (rule queue_invI)
    show "chain_ok q'" using d(1) by (simp add: q' chain_ok_def)
  next
    fix i assume "next_id q' \<le> i"
    with en(1) show "phase_of q' i = Waiting \<and> \<not> tail_of q' i"
      using d(2) [of i] by (simp add: q')
  next
    fix i assume "tail_of q' i"
    then show "is_settled (phase_of q' i)" using d(3) [of i] by (simp add: q')
  next
    fix j' i
    assume a: "j' < next_id q'" "phase_of q' j' \<noteq> Waiting" "i < j'" "key_of q' i = key_of q' j'"
    from a(2) en(2) have "phase_of q j' \<noteq> Waiting" by (cases "j' = j") (simp_all add: q')
    with a d(4) [of j' i] show "tail_of q' i" by (simp add: q')
  next
    fix i show "i \<in> set (finished q') \<longleftrightarrow> is_settled (phase_of q' i)"
      using d(5) [of i] by (auto simp: q')
  next
    show "distinct (finished q')" using d(6) jn by (simp add: q')
  next
    have "a < j" if a: "a \<in> set (finished q)" and k: "key_of q a = key_of q j" for a
    proof (rule ccontr)
      assume "\<not> a < j"
      with a jn have "j < a" by (cases "a = j") auto
      from a d(5) [of a] have sa: "is_settled (phase_of q a)" by simp
      then have "phase_of q a \<noteq> Waiting" by auto
      moreover from sa have "a < next_id q" by (rule settled_lt [OF inv])
      ultimately have "tail_of q j" using d(4) [of a j] \<open>j < a\<close> k by simp
      then have "is_settled (phase_of q j)" by (rule d(3))
      with en(2) show False by simp
    qed
    with d(7) show "sorted_wrt (\<lambda>a b. key_of q' a = key_of q' b \<longrightarrow> a < b) (finished q')"
      by (simp add: q' sorted_wrt_append)
  qed
qed

lemma queue_inv_swallow:
  assumes inv: "queue_inv q" and s: "step (Swallow j) q = Some q'"
  shows "queue_inv q'"
proof -
  note d = queue_invD [OF inv]
  from s have en: "j < next_id q" "is_settled (phase_of q j)"
    and q': "q' = q\<lparr>tail_of := (tail_of q)(j := True)\<rparr>"
    by (auto split: if_splits)
  show ?thesis
  proof (rule queue_invI)
    show "chain_ok q'" using d(1) by (simp add: q' chain_ok_def)
  next
    fix i assume "next_id q' \<le> i"
    with en(1) show "phase_of q' i = Waiting \<and> \<not> tail_of q' i"
      using d(2) [of i] by (simp add: q')
  next
    fix i assume "tail_of q' i"
    then show "is_settled (phase_of q' i)" using d(3) [of i] en(2) by (cases "i = j") (simp_all add: q')
  next
    fix j' i
    assume a: "j' < next_id q'" "phase_of q' j' \<noteq> Waiting" "i < j'" "key_of q' i = key_of q' j'"
    with d(4) [of j' i] show "tail_of q' i" by (simp add: q')
  next
    fix i show "i \<in> set (finished q') \<longleftrightarrow> is_settled (phase_of q' i)"
      using d(5) [of i] by (simp add: q')
  next
    show "distinct (finished q')" using d(6) by (simp add: q')
  next
    show "sorted_wrt (\<lambda>a b. key_of q' a = key_of q' b \<longrightarrow> a < b) (finished q')"
      using d(7) by (simp add: q')
  qed
qed

lemma queue_inv_step:
  assumes "queue_inv q" and "step e q = Some q'"
  shows "queue_inv q'"
proof (cases e)
  case (Run options)
  with assms show ?thesis by (auto simp: queue_inv_run)
next
  case (Enqueue key)
  with assms show ?thesis by (auto simp: queue_inv_enqueue)
next
  case (Start j)
  with assms show ?thesis by (auto intro: queue_inv_start)
next
  case (Finish j r)
  with assms show ?thesis by (auto intro: queue_inv_finish)
next
  case (Swallow j)
  with assms show ?thesis by (auto intro: queue_inv_swallow)
qed

lemma queue_inv_run_events:
  "queue_inv q \<Longrightarrow> run_events es q = Some q' \<Longrightarrow> queue_inv q'"
proof (induction es arbitrary: q)
  case Nil
  then show ?case by simp
next
  case (Cons e es)
  from Cons.prems(2) obtain q1 where 1: "step e q = Some q1" and 2: "run_events es q1 = Some q'"
    by (auto split: option.splits)
  from Cons.prems(1) 1 have "queue_inv q1" by (rule queue_inv_step)
  then show ?case using 2 by (rule Cons.IH)
qed


lemma run_events_append:
  "run_events (es1 @ es2) q = (case run_events es1 q of None \<Rightarrow> None | Some q1 \<Rightarrow> run_events es2 q1)"
  by (induction es1 arbitrary: q) (auto split: option.splits)

lemma finish_ids_append: "finish_ids (es1 @ es2) = finish_ids es1 @ finish_ids es2"
  by (induction es1 rule: finish_ids.induct) simp_all

lemma set_finish_ids: "i \<in> set (finish_ids es) \<longleftrightarrow> (\<exists>r. Finish i r \<in> set es)"
  by (induction es rule: finish_ids.induct) auto

lemma finished_step:
  "step e q = Some q' \<Longrightarrow> finished q' = finished q @ finish_ids [e]"
  by (cases e) (auto simp: run_def enqueue_def Let_def split: if_splits)

lemma finished_run_events:
  "run_events es q = Some q' \<Longrightarrow> finished q' = finished q @ finish_ids es"
proof (induction es arbitrary: q)
  case Nil
  then show ?case by simp
next
  case (Cons e es)
  from Cons.prems obtain q1 where 1: "step e q = Some q1" and 2: "run_events es q1 = Some q'"
    by (auto split: option.splits)
  from Cons.IH [OF 2] finished_step [OF 1] finish_ids_append [of "[e]" es]
  show ?case by simp
qed

lemma keys_step:
  "step e q = Some q' \<Longrightarrow> next_id q \<le> next_id q' \<and> (\<forall>i < next_id q. key_of q' i = key_of q i)"
  by (cases e) (auto simp: run_def enqueue_def Let_def split: if_splits)

lemma keys_run_events:
  "run_events es q = Some q' \<Longrightarrow> next_id q \<le> next_id q' \<and> (\<forall>i < next_id q. key_of q' i = key_of q i)"
proof (induction es arbitrary: q)
  case Nil
  then show ?case by simp
next
  case (Cons e es)
  from Cons.prems obtain q1 where 1: "step e q = Some q1" and 2: "run_events es q1 = Some q'"
    by (auto split: option.splits)
  from keys_step [OF 1] Cons.IH [OF 2] show ?case by auto
qed

lemma settled_step:
  assumes inv: "queue_inv q" and s: "step e q = Some q'" and p: "phase_of q i = Settled r"
  shows "phase_of q' i = Settled r"
proof -
  from p have "is_settled (phase_of q i)" by simp
  then have lt: "i < next_id q" by (rule settled_lt [OF inv])
  show ?thesis
  proof (cases e)
    case (Run options)
    with s p lt show ?thesis by (auto simp: run_def enqueue_def Let_def)
  next
    case (Enqueue key)
    with s p lt show ?thesis by (auto simp: enqueue_def Let_def)
  next
    case (Start j)
    with s p show ?thesis by (auto split: if_splits)
  next
    case (Finish j r')
    with s p show ?thesis by (auto split: if_splits)
  next
    case (Swallow j)
    with s p show ?thesis by (auto split: if_splits)
  qed
qed

lemma settled_run_events:
  "queue_inv q \<Longrightarrow> run_events es q = Some q' \<Longrightarrow> phase_of q i = Settled r \<Longrightarrow> phase_of q' i = Settled r"
proof (induction es arbitrary: q)
  case Nil
  then show ?case by simp
next
  case (Cons e es)
  from Cons.prems(2) obtain q1 where 1: "step e q = Some q1" and 2: "run_events es q1 = Some q'"
    by (auto split: option.splits)
  from Cons.prems(1) 1 have "queue_inv q1" by (rule queue_inv_step)
  moreover from Cons.prems(1) 1 Cons.prems(3) have "phase_of q1 i = Settled r" by (rule settled_step)
  ultimately show ?case using 2 Cons.IH by blast
qed

lemma started_after_settled:
  assumes inv: "queue_inv q" and j: "j < next_id q" "phase_of q j \<noteq> Waiting"
    and i: "i < j" "key_of q i = key_of q j"
  shows "is_settled (phase_of q i)"
  using queue_invD(3) [OF inv, of i] queue_invD(4) [OF inv, of j i] j i by blast

lemma next_can_start:
  assumes inv: "queue_inv q" and j: "j < next_id q" "phase_of q j = Waiting"
    and p: "prev_of q j = Some p" "phase_of q p = Settled r"
  shows "\<exists>q'. run_events (if tail_of q p then [Start j] else [Swallow p, Start j]) q = Some q' \<and>
              phase_of q' j = Running"
proof -
  from queue_invD(1) [OF inv] j(1) p(1) have "p < j"
    unfolding chain_ok_def chain_rel_def by blast
  with j p show ?thesis by simp
qed


lemma keys_upto_enqueue:
  "map (key_of (snd (enqueue key q))) [0..<next_id (snd (enqueue key q))] =
     map (key_of q) [0..<next_id q] @ [key]"
  by (simp add: enqueue_def Let_def)

lemma counter_enqueue [simp]: "statelessCounter (snd (enqueue key q)) = statelessCounter q"
  by (simp add: enqueue_def Let_def)

lemma submitted_run_events:
  "run_events es q = Some q' \<Longrightarrow>
   map (key_of q') [0..<next_id q'] = map (key_of q) [0..<next_id q] @ submitted (statelessCounter q) es"
proof (induction es arbitrary: q)
  case Nil
  then show ?case by simp
next
  case (Cons e es)
  from Cons.prems obtain q1 where 1: "step e q = Some q1" and 2: "run_events es q1 = Some q'"
    by (auto split: option.splits)
  note ih = Cons.IH [OF 2]
  show ?case
  proof (cases e)
    case (Run options)
    show ?thesis
    proof (cases "noSessionPersistence options")
      case True
      with Run 1 have q1: "q1 = snd (enqueue (''__stateless_'' @ show_nat (Suc (statelessCounter q)))
                                 (q\<lparr>statelessCounter := Suc (statelessCounter q)\<rparr>))"
        by (simp add: run_def Let_def)
      from ih Run True show ?thesis
        unfolding q1 by (simp add: keys_upto_enqueue)
    next
      case False
      with Run 1 have q1: "q1 = snd (enqueue (group_of options) q)"
        by (simp add: run_def)
      from ih Run False show ?thesis
        unfolding q1 by (simp add: keys_upto_enqueue)
    qed
  next
    case (Enqueue key)
    with 1 have q1: "q1 = snd (enqueue key q)" by simp
    from ih Enqueue show ?thesis
      unfolding q1 by (simp add: keys_upto_enqueue)
  next
    case (Start j)
    with 1 ih show ?thesis by (auto split: if_splits)
  next
    case (Finish j r)
    with 1 ih show ?thesis by (auto split: if_splits)
  next
    case (Swallow j)
    with 1 ih show ?thesis by (auto split: if_splits)
  qed
qed

lemma fst_enqueue: "fst (enqueue key q) = next_id q"
  by (simp add: enqueue_def Let_def)

lemma next_id_enqueue: "next_id (snd (enqueue key q)) = Suc (next_id q)"
  by (simp add: enqueue_def Let_def)

lemma fst_run: "fst (run options q) = next_id q"
  by (simp add: run_def Let_def fst_enqueue)

lemma next_id_run: "next_id (snd (run options q)) = Suc (next_id q)"
  by (simp add: run_def Let_def next_id_enqueue)

lemma handed_run_events:
  "run_events es q = Some q' \<Longrightarrow> handed es q = [next_id q..<next_id q']"
proof (induction es arbitrary: q)
  case Nil
  then show ?case by simp
next
  case (Cons e es)
  from Cons.prems obtain q1 where 1: "step e q = Some q1" and 2: "run_events es q1 = Some q'"
    by (auto split: option.splits)
  from keys_run_events [OF 2] have le: "next_id q1 \<le> next_id q'" by simp
  note ih = Cons.IH [OF 2]
  show ?case
  proof (cases e)
    case (Run options)
    with 1 have q1: "q1 = snd (run options q)" by simp
    from le have "Suc (next_id q) \<le> next_id q'" by (simp add: q1 next_id_run)
    with ih Run show ?thesis
      by (simp add: q1 fst_run next_id_run upt_conv_Cons)
  next
    case (Enqueue key)
    with 1 have q1: "q1 = snd (enqueue key q)" by simp
    from le have "Suc (next_id q) \<le> next_id q'" by (simp add: q1 next_id_enqueue)
    with ih Enqueue show ?thesis
      by (simp add: q1 fst_enqueue next_id_enqueue upt_conv_Cons)
  next
    case (Start j)
    with 1 have "next_id q1 = next_id q" by (auto split: if_splits)
    with ih Start 1 show ?thesis by simp
  next
    case (Finish j r)
    with 1 have "next_id q1 = next_id q" by (auto split: if_splits)
    with ih Finish 1 show ?thesis by simp
  next
    case (Swallow j)
    with 1 have "next_id q1 = next_id q" by (auto split: if_splits)
    with ih Swallow 1 show ?thesis by simp
  qed
qed

lemma settled_from_step:
  "step e q = Some q' \<Longrightarrow> phase_of q' i = Settled r \<Longrightarrow> phase_of q i = Settled r \<or> e = Finish i r"
  by (cases e) (auto simp: run_def enqueue_def Let_def split: if_splits)

lemma settled_from_run_events:
  "run_events es q = Some q' \<Longrightarrow> phase_of q' i = Settled r \<Longrightarrow>
   phase_of q i = Settled r \<or> Finish i r \<in> set es"
proof (induction es arbitrary: q)
  case Nil
  then show ?case by simp
next
  case (Cons e es)
  from Cons.prems(1) obtain q1 where 1: "step e q = Some q1" and 2: "run_events es q1 = Some q'"
    by (auto split: option.splits)
  from Cons.IH [OF 2 Cons.prems(2)] have "phase_of q1 i = Settled r \<or> Finish i r \<in> set es" .
  then show ?case
  proof
    assume "phase_of q1 i = Settled r"
    with 1 have "phase_of q i = Settled r \<or> e = Finish i r" by (rule settled_from_step)
    then show ?thesis by auto
  next
    assume "Finish i r \<in> set es"
    then show ?thesis by simp
  qed
qed

lemma finish_settles:
  "queue_inv q \<Longrightarrow> run_events es q = Some q' \<Longrightarrow> Finish i r \<in> set es \<Longrightarrow> phase_of q' i = Settled r"
proof (induction es arbitrary: q)
  case Nil
  then show ?case by simp
next
  case (Cons e es)
  from Cons.prems(2) obtain q1 where 1: "step e q = Some q1" and 2: "run_events es q1 = Some q'"
    by (auto split: option.splits)
  from Cons.prems(1) 1 have inv1: "queue_inv q1" by (rule queue_inv_step)
  show ?case
  proof (cases "e = Finish i r")
    case True
    with 1 have "phase_of q1 i = Settled r" by (auto split: if_splits)
    with inv1 2 show ?thesis by (rule settled_run_events)
  next
    case False
    with Cons.prems(3) have "Finish i r \<in> set es" by simp
    with inv1 2 show ?thesis by (rule Cons.IH)
  qed
qed

lemma settled_iff_finished:
  assumes "run_events es initial_queue = Some q"
  shows "phase_of q i = Settled r \<longleftrightarrow> Finish i r \<in> set es"
proof
  assume "phase_of q i = Settled r"
  with assms have "phase_of initial_queue i = Settled r \<or> Finish i r \<in> set es"
    by (rule settled_from_run_events)
  then show "Finish i r \<in> set es" by (simp add: initial_queue_def)
next
  assume "Finish i r \<in> set es"
  with queue_inv_initial assms show "phase_of q i = Settled r" by (rule finish_settles)
qed


text \<open>
  Claim C2.  Let \<open>es\<close> be any sequence of events that the queue can go through from its
  initial state, ending in \<open>q\<close>.  Tasks are numbered in the order of submission, each
  under the key it was submitted with.  Whenever a task is started, every earlier task of
  its key has settled before that point of the sequence, so no two tasks of one key are
  running at once.  The tasks of one key settle in the order of their submission.  A task
  whose predecessor has settled, whether it succeeded or failed, can be started as soon as
  the predecessor's tail has reacted.  A running task settles with the outcome of its
  function, failure included, and a task that has settled keeps its outcome whatever
  happens later.  The promise that \<open>run\<close> or \<open>enqueue\<close> returns for the \<open>k\<close>-th
  submission is the promise of the \<open>k\<close>-th task, so every caller holds a promise of its
  own, under the key it submitted; and that promise has settled with an outcome exactly
  when the function of the \<open>k\<close>-th task has ended with that outcome: a failure reaches
  the caller of the task that failed, and no other caller.
\<close>

theorem queue_is_fifo_per_key:
  assumes "run_events es initial_queue = Some q"
  shows "map (key_of q) [0..<next_id q] = submitted 0 es \<and>
    (\<forall>es1 es2 j i. es = es1 @ Start j # es2 \<and> i < j \<and> key_of q i = key_of q j \<longrightarrow>
        (\<exists>r. Finish i r \<in> set es1)) \<and>
    (\<forall>i j. i < j \<and> j < next_id q \<and> key_of q i = key_of q j \<and> phase_of q j \<noteq> Waiting \<longrightarrow>
        is_settled (phase_of q i)) \<and>
    (\<forall>i j. i < next_id q \<and> j < next_id q \<and> i \<noteq> j \<and> key_of q i = key_of q j \<longrightarrow>
        \<not> (phase_of q i = Running \<and> phase_of q j = Running)) \<and>
    finished q = finish_ids es \<and>
    sorted_wrt (\<lambda>a b. key_of q a = key_of q b \<longrightarrow> a < b) (finish_ids es) \<and>
    (\<forall>j p r. j < next_id q \<and> phase_of q j = Waiting \<and> prev_of q j = Some p \<and>
              phase_of q p = Settled r \<longrightarrow>
        (\<exists>q'. run_events (if tail_of q p then [Start j] else [Swallow p, Start j]) q = Some q' \<and>
              phase_of q' j = Running)) \<and>
    (\<forall>i r. i < next_id q \<and> phase_of q i = Running \<longrightarrow>
        (\<exists>q'. step (Finish i r) q = Some q' \<and> phase_of q' i = Settled r)) \<and>
    (\<forall>i r es' q'. phase_of q i = Settled r \<and> run_events es' q = Some q' \<longrightarrow>
        phase_of q' i = Settled r) \<and>
    handed es initial_queue = [0..<next_id q] \<and>
    map (key_of q) (handed es initial_queue) = submitted 0 es \<and>
    (\<forall>k < length (submitted 0 es). \<forall>r.
        phase_of q (handed es initial_queue ! k) = Settled r \<longleftrightarrow> Finish k r \<in> set es)"
proof -
  from queue_inv_initial assms have inv: "queue_inv q" by (rule queue_inv_run_events)
  have hand: "handed es initial_queue = [0..<next_id q]"
    using handed_run_events [OF assms] by (simp add: initial_queue_def)
  have keys: "map (key_of q) [0..<next_id q] = submitted 0 es"
    using submitted_run_events [OF assms] by (simp add: initial_queue_def)
  have fin: "finished q = finish_ids es"
    using finished_run_events [OF assms] by (simp add: initial_queue_def)
  have sorted: "sorted_wrt (\<lambda>a b. key_of q a = key_of q b \<longrightarrow> a < b) (finish_ids es)"
    using queue_invD(7) [OF inv] fin by simp
  have before: "\<exists>r. Finish i r \<in> set es1"
    if es: "es = es1 @ Start j # es2" and i: "i < j" "key_of q i = key_of q j" for es1 es2 j i
  proof -
    from assms es obtain q1 where 1: "run_events es1 initial_queue = Some q1"
      and 2: "run_events (Start j # es2) q1 = Some q"
      by (auto simp: run_events_append split: option.splits)
    from 2 obtain q2 where 3: "step (Start j) q1 = Some q2" and 4: "run_events es2 q2 = Some q"
      by (auto split: option.splits)
    from queue_inv_initial 1 have "queue_inv q1" by (rule queue_inv_run_events)
    then have inv2: "queue_inv q2" using 3 by (rule queue_inv_step)
    from 3 have j2: "j < next_id q2" "phase_of q2 j \<noteq> Waiting"
      by (auto split: if_splits)
    from keys_run_events [OF 4] j2(1) i have "key_of q2 i = key_of q2 j" by simp
    with inv2 j2 i(1) have "is_settled (phase_of q2 i)"
      by (rule started_after_settled)
    with queue_invD(5) [OF inv2, of i] have "i \<in> set (finished q2)" by simp
    moreover from 1 3 have "run_events (es1 @ [Start j]) initial_queue = Some q2"
      by (simp add: run_events_append)
    then have "finished q2 = finish_ids (es1 @ [Start j])"
      using finished_run_events [of "es1 @ [Start j]" initial_queue q2] by (simp add: initial_queue_def)
    ultimately have "i \<in> set (finish_ids es1)" by (simp add: finish_ids_append)
    then show ?thesis by (simp add: set_finish_ids)
  qed
  have state: "is_settled (phase_of q i)"
    if "i < j" "j < next_id q" "key_of q i = key_of q j" "phase_of q j \<noteq> Waiting" for i j
    using inv that(2) that(4) that(1) that(3) by (rule started_after_settled)
  have one: "\<not> (phase_of q i = Running \<and> phase_of q j = Running)"
    if "i < next_id q" "j < next_id q" "i \<noteq> j" "key_of q i = key_of q j" for i j
  proof
    assume r: "phase_of q i = Running \<and> phase_of q j = Running"
    show False
    proof (cases "i < j")
      case True
      with that r state [of i j] show False by simp
    next
      case False
      with that have "j < i" by simp
      with that r state [of j i] show False by simp
    qed
  qed
  have can: "\<exists>q'. run_events (if tail_of q p then [Start j] else [Swallow p, Start j]) q = Some q' \<and>
              phase_of q' j = Running"
    if "j < next_id q" "phase_of q j = Waiting" "prev_of q j = Some p" "phase_of q p = Settled r"
    for j p r
    using inv that by (rule next_can_start)
  have keep: "phase_of q' i = Settled r"
    if "phase_of q i = Settled r" "run_events es' q = Some q'" for i r es' q'
    using inv that(2) that(1) by (rule settled_run_events)
  have len: "length (submitted 0 es) = next_id q"
    using arg_cong [OF keys, of length] by simp
  have own: "phase_of q (handed es initial_queue ! k) = Settled r \<longleftrightarrow> Finish k r \<in> set es"
    if "k < length (submitted 0 es)" for k r
    using that settled_iff_finished [OF assms, of k r] by (simp add: hand len)
  show ?thesis
  proof (intro conjI)
    show "map (key_of q) [0..<next_id q] = submitted 0 es" by (rule keys)
    show "\<forall>es1 es2 j i. es = es1 @ Start j # es2 \<and> i < j \<and> key_of q i = key_of q j \<longrightarrow>
        (\<exists>r. Finish i r \<in> set es1)"
      using before by blast
    show "\<forall>i j. i < j \<and> j < next_id q \<and> key_of q i = key_of q j \<and> phase_of q j \<noteq> Waiting \<longrightarrow>
        is_settled (phase_of q i)"
      using state by blast
    show "\<forall>i j. i < next_id q \<and> j < next_id q \<and> i \<noteq> j \<and> key_of q i = key_of q j \<longrightarrow>
        \<not> (phase_of q i = Running \<and> phase_of q j = Running)"
      using one by blast
    show "finished q = finish_ids es" by (rule fin)
    show "sorted_wrt (\<lambda>a b. key_of q a = key_of q b \<longrightarrow> a < b) (finish_ids es)" by (rule sorted)
    show "\<forall>j p r. j < next_id q \<and> phase_of q j = Waiting \<and> prev_of q j = Some p \<and>
              phase_of q p = Settled r \<longrightarrow>
        (\<exists>q'. run_events (if tail_of q p then [Start j] else [Swallow p, Start j]) q = Some q' \<and>
              phase_of q' j = Running)"
      using can by blast
    show "\<forall>i r. i < next_id q \<and> phase_of q i = Running \<longrightarrow>
        (\<exists>q'. step (Finish i r) q = Some q' \<and> phase_of q' i = Settled r)"
      by simp
    show "\<forall>i r es' q'. phase_of q i = Settled r \<and> run_events es' q = Some q' \<longrightarrow>
        phase_of q' i = Settled r"
      using keep by blast
    show "handed es initial_queue = [0..<next_id q]" by (rule hand)
    show "map (key_of q) (handed es initial_queue) = submitted 0 es"
      using keys by (simp only: hand)
    show "\<forall>k < length (submitted 0 es). \<forall>r.
        phase_of q (handed es initial_queue ! k) = Settled r \<longleftrightarrow> Finish k r \<in> set es"
      using own by blast
  qed
qed


theorem queue_is_fifo_per_key_witness:
  "\<exists>q. run_events example_events initial_queue = Some q \<and>
       map (key_of q) [0..<next_id q] = [''ops'', ''ops'', ''__stateless_1''] \<and>
       finished q = [0, 1] \<and>
       phase_of q 0 = Settled Failed \<and> phase_of q 1 = Settled Succeeded \<and> phase_of q 2 = Running \<and>
       handed example_events initial_queue = [0, 1, 2] \<and>
       map (key_of q) (handed example_events initial_queue) = [''ops'', ''ops'', ''__stateless_1'']"
proof -
  have "\<not> Option.is_none (run_events example_events initial_queue)"
    by code_simp
  then obtain q where q: "run_events example_events initial_queue = Some q"
    by (auto simp: Option.is_none_def)
  have "map_option (\<lambda>q. (phase_of q 0, phase_of q 1, phase_of q 2))
          (run_events example_events initial_queue) =
        Some (Settled Failed, Settled Succeeded, Running)"
    by code_simp
  with q have p: "phase_of q 0 = Settled Failed" "phase_of q 1 = Settled Succeeded" "phase_of q 2 = Running"
    by simp_all
  have s: "submitted 0 example_events = [''ops'', ''ops'', ''__stateless_1'']"
    by code_simp
  have f: "finish_ids example_events = [0, 1]"
    by (simp add: example_events_def)
  have h: "handed example_events initial_queue = [0, 1, 2]"
    by code_simp
  from queue_is_fifo_per_key [OF q] s f
  have k: "map (key_of q) [0..<next_id q] = [''ops'', ''ops'', ''__stateless_1''] \<and> finished q = [0, 1]"
    and k': "map (key_of q) (handed example_events initial_queue) = [''ops'', ''ops'', ''__stateless_1'']"
    by simp_all
  show ?thesis
    by (rule exI [of _ q]) (simp only: q p k k' [unfolded h] h simp_thms)
qed

end
